theory Spec2Isabelle
  imports Main "HOL-Library.Sublist"
begin

section \<open>JavaScript values\<close>

text \<open>
  The values that \<^verbatim>\<open>JSON.parse\<close>, \<^verbatim>\<open>jsonc-parser\<close> and \<^verbatim>\<open>TOML.parse\<close> hand to
  \<^verbatim>\<open>deploy.ts\<close>. An object is the list of its own enumerable string-keyed properties in
  the order of \<^verbatim>\<open>Object.keys\<close>, each key occurring once. Numbers are never inspected by
  the code below, so their payload is an integer. A TOML date is an object without own
  enumerable keys, that is \<open>JObj []\<close>.

  A JavaScript string is a sequence of UTF-16 code units; a code unit is modelled as a
  natural number (below 65536 in any real string; nothing below depends on that bound).
  \<open>js\<close> embeds a string literal of the source.
\<close>

type_synonym jsstring = "nat list"

definition js :: "string \<Rightarrow> jsstring" where
  "js s = map of_char s"

datatype jsval =
    JUndefined
  | JNull
  | JBool bool
  | JNum int
  | JStr jsstring
  | JArr "jsval list"
  | JObj "(jsstring \<times> jsval) list"

text \<open>What the code can throw. \<open>Error msg\<close> is \<^verbatim>\<open>new Error(msg)\<close>.\<close>

datatype exn =
    TypeError
  | SyntaxError
  | ReadError
  | CommandError
  | Error jsstring

definition isNullish :: "jsval \<Rightarrow> bool" where
  "isNullish v = (v = JUndefined \<or> v = JNull)"

text \<open>\<^verbatim>\<open>Object.keys\<close> of an array: the decimal renderings of its indices.\<close>

definition digitChar :: "nat \<Rightarrow> char" where
  "digitChar d = ''0123456789'' ! d"

fun indexDigits :: "nat \<Rightarrow> string" where
  "indexDigits n =
     (if n < 10 then [digitChar n] else indexDigits (n div 10) @ [digitChar (n mod 10)])"

declare indexDigits.simps [simp del]

definition indexKey :: "nat \<Rightarrow> jsstring" where
  "indexKey n = js (indexDigits n)"

section \<open>The deployability gate (deploy.ts, lines 76--91 and 178--193)\<close>

text \<open>
  \<^verbatim>\<open>hasBinding\<close>: the \<^verbatim>\<open>for\<close> loop over \<^verbatim>\<open>Object.keys(node)\<close> is \<open>hasBindingProps\<close> for an
  object and \<open>hasBindingItems\<close> (with the running index) for an array. Each iteration either
  continues (key \<^verbatim>\<open>assets\<close>) or returns.
\<close>

fun hasBinding :: "jsval \<Rightarrow> bool"
  and hasBindingProps :: "(jsstring \<times> jsval) list \<Rightarrow> bool"
  and hasBindingItems :: "nat \<Rightarrow> jsval list \<Rightarrow> bool"
where
  "hasBinding (JObj kvs) = hasBindingProps kvs"
| "hasBinding (JArr xs) = hasBindingItems 0 xs"
| "hasBinding JUndefined = False"
| "hasBinding JNull = False"
| "hasBinding (JBool b) = False"
| "hasBinding (JNum n) = False"
| "hasBinding (JStr s) = False"
| "hasBindingProps [] = False"
| "hasBindingProps ((key, v) # rest) =
     (if key = js ''assets'' then hasBindingProps rest
      else if key = js ''binding'' \<or> key = js ''bindings'' then True
      else hasBinding v)"
| "hasBindingItems i [] = False"
| "hasBindingItems i (v # rest) =
     (if indexKey i = js ''assets'' then hasBindingItems (Suc i) rest
      else if indexKey i = js ''binding'' \<or> indexKey i = js ''bindings'' then True
      else hasBinding v)"

text \<open>\<^verbatim>\<open>wranglerTomlStr.replace(/\r\n/g, "\n")\<close>\<close>

fun crlfToLf :: "jsstring \<Rightarrow> jsstring" where
  "crlfToLf (c # d # rest) =
     (if c = 0x0D \<and> d = 0x0A then 0x0A # crlfToLf rest
      else c # crlfToLf (d # rest))"
| "crlfToLf [c] = [c]"
| "crlfToLf [] = []"

text \<open>
  The project directory as \<^verbatim>\<open>readWranglerConfig\<close> sees it through the helpers of
  \<^verbatim>\<open>./wrangler/config\<close>: \<open>wranglerJson\<close> is \<open>None\<close> when \<^verbatim>\<open>wranglerJsonExists\<close> is false and
  the text \<^verbatim>\<open>readWranglerJson\<close> returns otherwise; \<open>wranglerToml\<close> is what \<^verbatim>\<open>readWranglerToml\<close>
  returns or throws.
\<close>

record projectFiles =
  wranglerJson :: "jsstring option"
  wranglerToml :: "exn + jsstring"

text \<open>
  The fields of \<^verbatim>\<open>C3Context\<close> that the modelled functions read or write.
  \<open>url_assignments\<close> is a history variable: the number of assignments to
  \<^verbatim>\<open>ctx.deployment.url\<close> executed so far.
\<close>

record C3Context =
  platform :: jsstring
  account_id :: "jsstring option"
  deployment_url :: "jsstring option"
  args_open :: bool
  url_assignments :: nat

text \<open>
  The two parsers are libraries: \<open>jsoncParse\<close> (\<^verbatim>\<open>jsonc-parser\<close>, which does not throw) and
  \<open>tomlParse\<close> (\<^verbatim>\<open>TOML.parse\<close>, which may) are parameters.
\<close>

definition readWranglerConfig ::
  "(jsstring \<Rightarrow> jsval) \<Rightarrow> (jsstring \<Rightarrow> exn + jsval) \<Rightarrow> projectFiles \<Rightarrow> exn + jsval" where
  "readWranglerConfig jsoncParse tomlParse files =
     (case wranglerJson files of
        Some wranglerJsonStr \<Rightarrow> Inr (jsoncParse wranglerJsonStr)
      | None \<Rightarrow>
          (case wranglerToml files of
             Inl e \<Rightarrow> Inl e
           | Inr wranglerTomlStr \<Rightarrow> tomlParse (crlfToLf wranglerTomlStr)))"

definition isDeployable ::
  "(jsstring \<Rightarrow> jsval) \<Rightarrow> (jsstring \<Rightarrow> exn + jsval) \<Rightarrow> projectFiles \<Rightarrow> C3Context \<Rightarrow> exn + bool" where
  "isDeployable jsoncParse tomlParse files ctx =
     (if platform ctx = js ''pages'' then Inr True
      else (case readWranglerConfig jsoncParse tomlParse files of
              Inl e \<Rightarrow> Inl e
            | Inr wranglerConfig \<Rightarrow> Inr (\<not> hasBinding wranglerConfig)))"

section \<open>String primitives\<close>

text \<open>\<^verbatim>\<open>s.split(sep)\<close> for a non-empty separator string.\<close>

fun splitOn :: "jsstring \<Rightarrow> jsstring \<Rightarrow> jsstring list" where
  "splitOn sep [] = [[]]"
| "splitOn sep (c # cs) =
     (if sep \<noteq> [] \<and> prefix sep (c # cs) then [] # splitOn sep (drop (length sep) (c # cs))
      else (case splitOn sep cs of
              [] \<Rightarrow> [[c]]
            | piece # pieces \<Rightarrow> (c # piece) # pieces))"

text \<open>\<^verbatim>\<open>parts.join(sep)\<close>\<close>

fun joinWith :: "jsstring \<Rightarrow> jsstring list \<Rightarrow> jsstring" where
  "joinWith sep [] = []"
| "joinWith sep [p] = p"
| "joinWith sep (p # q # ps) = p @ sep @ joinWith sep (q # ps)"

text \<open>\<^verbatim>\<open>parts.slice(-n)\<close>\<close>

definition lastN :: "nat \<Rightarrow> 'a list \<Rightarrow> 'a list" where
  "lastN n xs = drop (length xs - n) xs"

section \<open>The deploy runner (deploy.ts, lines 93--162)\<close>

subsection \<open>The pattern \<^verbatim>\<open>/https:\/\/.+\.(pages|workers)\.dev/\<close>\<close>

text \<open>
  \<^verbatim>\<open>value.match(deployedUrlRegex)\<close> for a regular expression without flags: the engine
  tries each start position from the left; at a position the greedy \<^verbatim>\<open>.+\<close> first takes
  as many characters as it can and gives them back one at a time until the rest of the
  pattern matches. The dot matches every code unit but the four line terminators (LF, CR,
  U+2028, U+2029). Only element 0 of the result (the matched text) is used by the code.
\<close>

definition lineTerminator :: "nat \<Rightarrow> bool" where
  "lineTerminator c = (c = 0x0A \<or> c = 0x0D \<or> c = 0x2028 \<or> c = 0x2029)"

text \<open>\<^verbatim>\<open>\.(pages|workers)\.dev\<close> at the start of the input.\<close>

definition regexDomain :: "jsstring \<Rightarrow> jsstring option" where
  "regexDomain s =
     (if prefix (js ''.pages.dev'') s then Some (js ''.pages.dev'')
      else if prefix (js ''.workers.dev'') s then Some (js ''.workers.dev'')
      else None)"

text \<open>
  The rest of the pattern after \<^verbatim>\<open>.+\<close> has taken its first character: take one more
  character if that leads to a match, else match the domain here.
\<close>

fun regexRest :: "jsstring \<Rightarrow> jsstring option" where
  "regexRest [] = regexDomain []"
| "regexRest (c # cs) =
     (case (if lineTerminator c then None else regexRest cs) of
        Some m \<Rightarrow> Some (c # m)
      | None \<Rightarrow> regexDomain (c # cs))"

text \<open>The whole pattern at the start of the input.\<close>

definition regexAt :: "jsstring \<Rightarrow> jsstring option" where
  "regexAt s =
     (if prefix (js ''https://'') s then
        (case drop 8 s of
           [] \<Rightarrow> None
         | c # cs \<Rightarrow>
             if lineTerminator c then None
             else map_option (\<lambda>m. (js ''https://'') @ c # m) (regexRest cs))
      else None)"

fun deployedUrlMatch :: "jsstring \<Rightarrow> jsstring option" where
  "deployedUrlMatch [] = regexAt []"
| "deployedUrlMatch (c # cs) =
     (case regexAt (c # cs) of
        Some m \<Rightarrow> Some m
      | None \<Rightarrow> deployedUrlMatch cs)"

subsection \<open>Property access on parsed records\<close>

text \<open>
  \<^verbatim>\<open>v.key\<close> for the three names the code reads (\<^verbatim>\<open>type\<close>, \<^verbatim>\<open>targets\<close>, \<^verbatim>\<open>url\<close>): no
  prototype defines them and they are not array indices, so only an object can have them.
\<close>

definition getField :: "jsval \<Rightarrow> jsstring \<Rightarrow> exn + jsval" where
  "getField v key =
     (case v of
        JUndefined \<Rightarrow> Inl TypeError
      | JNull \<Rightarrow> Inl TypeError
      | JObj kvs \<Rightarrow> (case map_of kvs key of None \<Rightarrow> Inr JUndefined | Some x \<Rightarrow> Inr x)
      | _ \<Rightarrow> Inr JUndefined)"

text \<open>\<^verbatim>\<open>v[0]\<close> for a value that is neither \<^verbatim>\<open>null\<close> nor \<^verbatim>\<open>undefined\<close>.\<close>

definition getFirst :: "jsval \<Rightarrow> jsval" where
  "getFirst v =
     (case v of
        JArr xs \<Rightarrow> (case xs of [] \<Rightarrow> JUndefined | x # _ \<Rightarrow> x)
      | JStr s \<Rightarrow> (case s of [] \<Rightarrow> JUndefined | c # _ \<Rightarrow> JStr [c])
      | JObj kvs \<Rightarrow> (case map_of kvs (js ''0'') of None \<Rightarrow> JUndefined | Some x \<Rightarrow> x)
      | _ \<Rightarrow> JUndefined)"

text \<open>\<^verbatim>\<open>entries.find((entry) => entry.type === t)\<close>; \<open>JUndefined\<close> when nothing is found.\<close>

fun findEntry :: "jsstring \<Rightarrow> jsval list \<Rightarrow> exn + jsval" where
  "findEntry t [] = Inr JUndefined"
| "findEntry t (entry # entries) =
     (case getField entry (js ''type'') of
        Inl e \<Rightarrow> Inl e
      | Inr ty \<Rightarrow> if ty = JStr t then Inr entry else findEntry t entries)"

text \<open>\<^verbatim>\<open>entries.find(...)?.targets?.[0]\<close>\<close>

definition deployTarget :: "jsval list \<Rightarrow> exn + jsval" where
  "deployTarget entries =
     (case findEntry (js ''deploy'') entries of
        Inl e \<Rightarrow> Inl e
      | Inr found \<Rightarrow>
          if isNullish found then Inr JUndefined
          else (case getField found (js ''targets'') of
                  Inl e \<Rightarrow> Inl e
                | Inr targets \<Rightarrow>
                    if isNullish targets then Inr JUndefined else Inr (getFirst targets)))"

text \<open>\<^verbatim>\<open>entries.find(...)?.url\<close>\<close>

definition pagesDeployUrl :: "jsval list \<Rightarrow> exn + jsval" where
  "pagesDeployUrl entries =
     (case findEntry (js ''pages-deploy'') entries of
        Inl e \<Rightarrow> Inl e
      | Inr found \<Rightarrow> if isNullish found then Inr JUndefined else getField found (js ''url''))"

text \<open>The initialiser of \<^verbatim>\<open>url\<close> (lines 141--143): \<^verbatim>\<open>??\<close> evaluates its right operand only
  when the left one is \<^verbatim>\<open>null\<close> or \<^verbatim>\<open>undefined\<close>.\<close>

definition extractedValue :: "jsval list \<Rightarrow> exn + jsval" where
  "extractedValue entries =
     (case deployTarget entries of
        Inl e \<Rightarrow> Inl e
      | Inr v \<Rightarrow> if isNullish v then pagesDeployUrl entries else Inr v)"

definition failedToFind :: exn where
  "failedToFind = Error (js ''Failed to find deployment url.'')"

text \<open>
  Lines 144--150 on the value of \<^verbatim>\<open>url\<close>: \<^verbatim>\<open>url?.match\<close> is \<^verbatim>\<open>undefined\<close> for a nullish
  value, a call of a missing method (a \<^verbatim>\<open>TypeError\<close>) for any other non-string, and the
  match otherwise; no match throws the \<^verbatim>\<open>Error\<close> of line 149.
\<close>

definition matchedUrl :: "jsval \<Rightarrow> exn + jsstring" where
  "matchedUrl url =
     (if isNullish url then Inl failedToFind
      else (case url of
              JStr s \<Rightarrow> (case deployedUrlMatch s of None \<Rightarrow> Inl failedToFind | Some m \<Rightarrow> Inr m)
            | _ \<Rightarrow> Inl TypeError))"

text \<open>Lines 141--150 on the parsed entries.\<close>

definition entriesUrl :: "jsval list \<Rightarrow> exn + jsstring" where
  "entriesUrl entries =
     (case extractedValue entries of Inl e \<Rightarrow> Inl e | Inr url \<Rightarrow> matchedUrl url)"

text \<open>\<^verbatim>\<open>.map((entry) => JSON.parse(entry))\<close>; \<^verbatim>\<open>JSON.parse\<close> is a parameter.\<close>

fun parseEntries :: "(jsstring \<Rightarrow> exn + jsval) \<Rightarrow> jsstring list \<Rightarrow> exn + jsval list" where
  "parseEntries JSON_parse [] = Inr []"
| "parseEntries JSON_parse (entry # rest) =
     (case JSON_parse entry of
        Inl e \<Rightarrow> Inl e
      | Inr v \<Rightarrow> (case parseEntries JSON_parse rest of Inl e \<Rightarrow> Inl e | Inr vs \<Rightarrow> Inr (v # vs)))"

text \<open>\<^verbatim>\<open>contents.split("\n").filter(Boolean)\<close>\<close>

definition outputLines :: "jsstring \<Rightarrow> jsstring list" where
  "outputLines contents = filter (\<lambda>line. line \<noteq> []) (splitOn [0x0A] contents)"

text \<open>The body of the \<^verbatim>\<open>try\<close> block up to the assignment (lines 135--150).\<close>

definition readDeploymentUrl :: "(jsstring \<Rightarrow> exn + jsval) \<Rightarrow> exn + jsstring \<Rightarrow> exn + jsstring" where
  "readDeploymentUrl JSON_parse file =
     (case file of
        Inl e \<Rightarrow> Inl e
      | Inr contents \<Rightarrow>
          (case parseEntries JSON_parse (outputLines contents) of
             Inl e \<Rightarrow> Inl e
           | Inr entries \<Rightarrow> entriesUrl entries))"

subsection \<open>The statements of \<^verbatim>\<open>runDeploy\<close>\<close>

text \<open>
  A statement maps the context to the exception it throws, if any, and the context it
  leaves behind: a mutation made before a \<^verbatim>\<open>throw\<close> stays.
\<close>

definition assignUrl :: "jsstring \<Rightarrow> C3Context \<Rightarrow> C3Context" where
  "assignUrl u ctx = ctx\<lparr>deployment_url := Some u, url_assignments := Suc (url_assignments ctx)\<rparr>"

text \<open>The \<^verbatim>\<open>try\<close>/\<^verbatim>\<open>catch\<close> of lines 134--153.\<close>

definition extractStep ::
  "(jsstring \<Rightarrow> exn + jsval) \<Rightarrow> exn + jsstring \<Rightarrow> C3Context \<Rightarrow> exn option \<times> C3Context" where
  "extractStep JSON_parse file ctx =
     (case readDeploymentUrl JSON_parse file of
        Inl e \<Rightarrow> (Some failedToFind, ctx)
      | Inr m \<Rightarrow> (None, assignUrl m ctx))"

text \<open>Lines 157--160: the value assigned to the url of a \<^verbatim>\<open>.pages.dev\<close> deployment.\<close>

definition hostnameWithoutSHA1 :: "jsstring \<Rightarrow> exn + jsstring" where
  "hostnameWithoutSHA1 url =
     (case splitOn (js ''://'') url of
        proto # hostname # _ \<Rightarrow>
          Inr (proto @ js ''://'' @ joinWith (js ''.'') (lastN 3 (splitOn (js ''.'') hostname)))
      | _ \<Rightarrow> Inl TypeError)"

text \<open>Lines 156--161 as a function on the url: the normalisation.\<close>

definition normalizeUrl :: "jsstring \<Rightarrow> exn + jsstring" where
  "normalizeUrl url =
     (if suffix (js ''.pages.dev'') url then hostnameWithoutSHA1 url else Inr url)"

definition normalizeStep :: "C3Context \<Rightarrow> exn option \<times> C3Context" where
  "normalizeStep ctx =
     (case deployment_url ctx of
        None \<Rightarrow> (None, ctx)
      | Some url \<Rightarrow>
          if suffix (js ''.pages.dev'') url then
            (case hostnameWithoutSHA1 url of
               Inl e \<Rightarrow> (Some e, ctx)
             | Inr u \<Rightarrow> (None, assignUrl u ctx))
          else (None, ctx))"

text \<open>
  What one call of \<^verbatim>\<open>runDeploy\<close> meets outside the context: the outcome of \<^verbatim>\<open>runCommand\<close>
  (\<open>None\<close> when the subprocess exits with status 0) and what \<^verbatim>\<open>readFile(outputFile)\<close>
  returns or throws afterwards. The command line built in lines 100--114 only reaches the
  subprocess.
\<close>

record deployRun =
  commandFailure :: "exn option"
  outputFile :: "exn + jsstring"

definition runDeploy ::
  "(jsstring \<Rightarrow> exn + jsval) \<Rightarrow> deployRun \<Rightarrow> C3Context \<Rightarrow> exn option \<times> C3Context" where
  "runDeploy JSON_parse run ctx =
     (if account_id ctx = None \<or> account_id ctx = Some [] then
        (Some (Error (js ''Failed to read Cloudflare account.'')), ctx)
      else (case commandFailure run of
              Some e \<Rightarrow> (Some e, ctx)
            | None \<Rightarrow>
                (case extractStep JSON_parse (outputFile run) ctx of
                   (Some e, ctx') \<Rightarrow> (Some e, ctx')
                 | (None, ctx') \<Rightarrow> normalizeStep ctx')))"

section \<open>The availability poller's caller (deploy.ts, lines 164--173)\<close>

datatype effect = Poll jsstring | OpenInBrowser jsstring

text \<open>\<^verbatim>\<open>maybeOpenBrowser\<close>: the calls it makes, in order. \<^verbatim>\<open>poll\<close> is a parameter.\<close>

definition maybeOpenBrowser :: "(jsstring \<Rightarrow> bool) \<Rightarrow> C3Context \<Rightarrow> effect list" where
  "maybeOpenBrowser poll ctx =
     (case deployment_url ctx of
        None \<Rightarrow> []
      | Some url \<Rightarrow>
          if url = [] then []
          else if poll url then
            (if args_open ctx then [Poll url, OpenInBrowser url] else [Poll url])
          else [Poll url])"

section \<open>The name resolver (api/mtls-certificate.ts)\<close>

record MTlsCertificateResponse =
  cert_id :: jsstring
  cert_name :: "jsstring option"
  certificates :: jsstring
  issuer :: jsstring
  uploaded_on :: jsstring
  expires_on :: jsstring

datatype resolveError =
    NotFoundError jsstring
  | AmbiguousNameError jsstring

definition notFoundMessage :: "jsstring \<Rightarrow> jsstring" where
  \<open>notFoundMessage name = js ''certificate not found with name "'' @ name @ js ''"''\<close>

definition manyFoundMessage :: "jsstring \<Rightarrow> jsstring" where
  \<open>manyFoundMessage name = js ''multiple certificates found with name "'' @ name @ js ''"''\<close>

text \<open>
  Modelled from the spec: \<^verbatim>\<open>getMTlsCertificateByName\<close> (imported from \<^verbatim>\<open>../api\<close>) is not
  among the sources; only its tests are (part_000). The listing call with the name as its
  filter, the three outcomes and the two messages are those of section 4.2 of the
  specification. \<open>listing\<close> is the answer of the list endpoint to that call. The entries
  counted are the entries of that answer as they are: the test "should not delete when
  many certificates are found by name" (part_000, lines 625--640) answers the listing with
  two certificates named \<^verbatim>\<open>cert one\<close>, asks for \<^verbatim>\<open>my-cert\<close> and expects
  \<^verbatim>\<open>multiple certificates found with name "my-cert"\<close>.
\<close>

definition getMTlsCertificateByName ::
  "MTlsCertificateResponse list \<Rightarrow> jsstring \<Rightarrow> resolveError + MTlsCertificateResponse" where
  "getMTlsCertificateByName listing name =
     (case listing of
        [] \<Rightarrow> Inl (NotFoundError (notFoundMessage name))
      | [certificate] \<Rightarrow> Inr certificate
      | _ \<Rightarrow> Inl (AmbiguousNameError (manyFoundMessage name)))"

text \<open>
  Modelled from the spec: \<open>resolveByName\<close> as section 4.2 words it, with the answer of the
  listing filtered again to the entries whose name equals the query.
\<close>

definition resolveByName ::
  "MTlsCertificateResponse list \<Rightarrow> jsstring \<Rightarrow> resolveError + MTlsCertificateResponse" where
  "resolveByName listing name =
     (case filter (\<lambda>c. cert_name c = Some name) listing of
        [] \<Rightarrow> Inl (NotFoundError (notFoundMessage name))
      | [certificate] \<Rightarrow> Inr certificate
      | _ \<Rightarrow> Inl (AmbiguousNameError (manyFoundMessage name)))"

section \<open>Notions of the specification\<close>

subsection \<open>Where a binding key can lie in a configuration tree\<close>

text \<open>
  The first-key-only descent: at a mapping the \<^verbatim>\<open>assets\<close> keys are skipped and only the
  first remaining key counts; it is a binding key, or the descent goes on in its value. At
  a sequence the descent goes on in the first element.
\<close>

definition remainingKeys :: "(jsstring \<times> jsval) list \<Rightarrow> (jsstring \<times> jsval) list" where
  "remainingKeys kvs = filter (\<lambda>kv. fst kv \<noteq> js ''assets'') kvs"

inductive bindingReachable :: "jsval \<Rightarrow> bool" where
  at_key: "remainingKeys kvs = (key, v) # others \<Longrightarrow> key = js ''binding'' \<or> key = js ''bindings''
             \<Longrightarrow> bindingReachable (JObj kvs)"
| below_key: "remainingKeys kvs = (key, v) # others \<Longrightarrow> bindingReachable v
             \<Longrightarrow> bindingReachable (JObj kvs)"
| below_item: "bindingReachable v \<Longrightarrow> bindingReachable (JArr (v # others))"

text \<open>Some binding key of the tree, at any depth and position, lies outside every
  \<^verbatim>\<open>assets\<close> subtree.\<close>

fun bindingOutsideAssets :: "jsval \<Rightarrow> bool"
  and bindingOutsideProps :: "(jsstring \<times> jsval) list \<Rightarrow> bool"
  and bindingOutsideItems :: "jsval list \<Rightarrow> bool"
where
  "bindingOutsideAssets (JObj kvs) = bindingOutsideProps kvs"
| "bindingOutsideAssets (JArr xs) = bindingOutsideItems xs"
| "bindingOutsideAssets JUndefined = False"
| "bindingOutsideAssets JNull = False"
| "bindingOutsideAssets (JBool b) = False"
| "bindingOutsideAssets (JNum n) = False"
| "bindingOutsideAssets (JStr s) = False"
| "bindingOutsideProps [] = False"
| "bindingOutsideProps ((key, v) # rest) =
     ((key \<noteq> js ''assets'' \<and> (key = js ''binding'' \<or> key = js ''bindings'' \<or> bindingOutsideAssets v))
      \<or> bindingOutsideProps rest)"
| "bindingOutsideItems [] = False"
| "bindingOutsideItems (v # rest) = (bindingOutsideAssets v \<or> bindingOutsideItems rest)"

subsection \<open>The extraction rule on output records\<close>

definition hasType :: "jsstring \<Rightarrow> jsval \<Rightarrow> bool" where
  "hasType t entry = (getField entry (js ''type'') = Inr (JStr t))"

definition present :: "jsval \<Rightarrow> jsval option" where
  "present v = (if isNullish v then None else Some v)"

text \<open>The first element of a record's target list, and a record's url field.\<close>

definition firstTarget :: "jsval \<Rightarrow> jsval option" where
  "firstTarget entry =
     (case getField entry (js ''targets'') of
        Inl e \<Rightarrow> None
      | Inr targets \<Rightarrow> (case present targets of None \<Rightarrow> None | Some ts \<Rightarrow> present (getFirst ts)))"

definition urlField :: "jsval \<Rightarrow> jsval option" where
  "urlField entry = (case getField entry (js ''url'') of Inl e \<Rightarrow> None | Inr u \<Rightarrow> present u)"

text \<open>The value taken in priority order.\<close>

definition prioritisedValue :: "jsval list \<Rightarrow> jsval option" where
  "prioritisedValue entries =
     (case Option.bind (find (hasType (js ''deploy'')) entries) firstTarget of
        Some v \<Rightarrow> Some v
      | None \<Rightarrow> Option.bind (find (hasType (js ''pages-deploy'')) entries) urlField)"

subsection \<open>Texts of the shape \<^verbatim>\<open>https://<host>.(pages|workers).dev\<close>\<close>

text \<open>With any non-empty text for the host part.\<close>

definition urlShapedLoose :: "jsstring \<Rightarrow> bool" where
  "urlShapedLoose m =
     (\<exists>mid dom. m = js ''https://'' @ mid @ dom \<and> mid \<noteq> []
        \<and> (dom = js ''.pages.dev'' \<or> dom = js ''.workers.dev''))"

text \<open>With a non-empty host part free of the four line terminators, as the dot of the
  pattern requires.\<close>

definition urlShaped :: "jsstring \<Rightarrow> bool" where
  "urlShaped m =
     (\<exists>mid dom. m = js ''https://'' @ mid @ dom \<and> mid \<noteq> []
        \<and> (\<forall>c\<in>set mid. \<not> lineTerminator c)
        \<and> (dom = js ''.pages.dev'' \<or> dom = js ''.workers.dev''))"

definition containsText :: "(jsstring \<Rightarrow> bool) \<Rightarrow> jsstring \<Rightarrow> bool" where
  "containsText shape v = (\<exists>pre m post. v = pre @ m @ post \<and> shape m)"

text \<open>
  The match of the pattern in a value, as the language definition fixes it for this
  pattern: among the texts of the shape contained in the value, the one that starts
  leftmost and, of those, the longest.
\<close>

definition patternMatch :: "jsstring \<Rightarrow> jsstring \<Rightarrow> bool" where
  "patternMatch v m =
     (\<exists>pre post. v = pre @ m @ post \<and> urlShaped m
        \<and> (\<forall>pre' m' post'. v = pre' @ m' @ post' \<and> urlShaped m' \<longrightarrow>
              length pre < length pre' \<or> (length pre' = length pre \<and> length m' \<le> length m)))"

text \<open>A record that by itself yields a url matching the pattern.\<close>

definition recordYieldsUrl :: "jsval \<Rightarrow> bool" where
  "recordYieldsUrl entry =
     (\<exists>v. (if hasType (js ''deploy'') entry then firstTarget entry
           else if hasType (js ''pages-deploy'') entry then urlField entry
           else None) = Some (JStr v)
          \<and> containsText urlShaped v)"

text \<open>
  The host of a url that carries neither user information nor a port, as a url parser
  reads it: the text after the first \<^verbatim>\<open>://\<close> up to the next \<^verbatim>\<open>/\<close>, \<^verbatim>\<open>?\<close> or \<^verbatim>\<open>#\<close>.
\<close>

definition urlHost :: "jsstring \<Rightarrow> jsstring" where
  "urlHost url =
     (case splitOn (js ''://'') url of
        scheme # rest # _ \<Rightarrow>
          takeWhile (\<lambda>c. c \<noteq> of_char (CHR ''/'') \<and> c \<noteq> of_char (CHR ''?'')
                          \<and> c \<noteq> of_char (CHR ''#'')) rest
      | _ \<Rightarrow> [])"

section \<open>Auxiliary notions of the proofs\<close>

text \<open>The two domains the pattern ends in.\<close>

definition isDomain :: "jsstring \<Rightarrow> bool" where
  "isDomain d = (d = js ''.pages.dev'' \<or> d = js ''.workers.dev'')"

text \<open>What the pattern can match after the first code unit of \<^verbatim>\<open>.+\<close>.\<close>

definition restShaped :: "jsstring \<Rightarrow> bool" where
  "restShaped m = (\<exists>mid d. m = mid @ d \<and> (\<forall>c\<in>set mid. \<not> lineTerminator c) \<and> isDomain d)"

text \<open>Lines 144--150 on an optional value, with the exceptions dropped.\<close>

definition matchOfValue :: "jsval option \<Rightarrow> jsstring option" where
  "matchOfValue value =
     (case value of Some (JStr s) \<Rightarrow> deployedUrlMatch s | _ \<Rightarrow> None)"

section \<open>Verification: the deployability gate\<close>

subsection \<open>Array index keys are never one of the three special keys\<close>

lemma js_Nil [simp]: "js [] = []"
  by (simp add: js_def)

lemma js_Cons [simp]: "js (c # cs) = of_char c # js cs"
  by (simp add: js_def)

lemma js_append [simp]: "js (a @ b) = js a @ js b"
  by (simp add: js_def)

lemma js_eq_iff: "js a = js b \<longleftrightarrow> a = b"
  by (simp add: js_def inj_map_eq_map inj_on_def)

lemma digitChar_digit: "d < 10 \<Longrightarrow> digitChar d \<in> set ''0123456789''"
  unfolding digitChar_def by (rule nth_mem) simp

lemma indexDigits_last:
  "indexDigits n \<noteq> [] \<and> last (indexDigits n) \<in> set ''0123456789''"
proof -
  have "n mod 10 < 10" by simp
  then have d: "digitChar (n mod 10) \<in> set ''0123456789''" by (rule digitChar_digit)
  show ?thesis
  proof (cases "n < 10")
    case True
    then show ?thesis using d by (simp add: indexDigits.simps [of n])
  next
    case False
    then show ?thesis using d by (simp add: indexDigits.simps [of n])
  qed
qed

lemma indexDigits_not_word:
  "indexDigits n \<noteq> ''assets''" "indexDigits n \<noteq> ''binding''" "indexDigits n \<noteq> ''bindings''"
  using indexDigits_last [of n] by auto

lemma indexKey_not_word:
  "indexKey n \<noteq> js ''assets''" "indexKey n \<noteq> js ''binding''" "indexKey n \<noteq> js ''bindings''"
  unfolding indexKey_def js_eq_iff by (rule indexDigits_not_word)+

lemma hasBindingItems_first: "hasBindingItems i (v # rest) = hasBinding v"
  by (simp add: indexKey_not_word [simplified])

subsection \<open>The loop decides on the first key that is not \<^verbatim>\<open>assets\<close>\<close>

lemma hasBindingProps_remaining:
  "hasBindingProps kvs =
     (case remainingKeys kvs of
        [] \<Rightarrow> False
      | (key, v) # others \<Rightarrow> key = js ''binding'' \<or> key = js ''bindings'' \<or> hasBinding v)"
  by (induction kvs) (auto simp: remainingKeys_def split: if_splits)

lemma reachable_hasBinding: "bindingReachable t \<Longrightarrow> hasBinding t"
proof (induction rule: bindingReachable.induct)
  case (at_key kvs key v others)
  then show ?case unfolding hasBinding.simps hasBindingProps_remaining by auto
next
  case (below_key kvs key v others)
  then show ?case by (simp add: hasBindingProps_remaining)
next
  case (below_item v others)
  then show ?case by (simp add: hasBindingItems_first del: hasBindingItems.simps)
qed

lemma hasBinding_reachable:
  "(hasBinding t \<longrightarrow> bindingReachable t)"
  "(hasBindingProps kvs \<longrightarrow> bindingReachable (JObj kvs))"
  "(hasBindingItems i xs \<longrightarrow> bindingReachable (JArr xs))"
proof (induction t and kvs and i xs rule: hasBinding_hasBindingProps_hasBindingItems.induct)
  case (9 key v rest)
  show ?case
  proof
    assume h: "hasBindingProps ((key, v) # rest)"
    show "bindingReachable (JObj ((key, v) # rest))"
    proof (cases "key = js ''assets''")
      case True
      with h 9 have "bindingReachable (JObj rest)" by simp
      then show ?thesis using True
        by (cases rule: bindingReachable.cases)
           (auto simp: remainingKeys_def intro: bindingReachable.intros)
    next
      case False
      then have r: "remainingKeys ((key, v) # rest) = (key, v) # remainingKeys rest"
        by (simp add: remainingKeys_def)
      show ?thesis
      proof (cases "key = js ''binding'' \<or> key = js ''bindings''")
        case True
        with r show ?thesis by (rule at_key)
      next
        case b: False
        with h False 9 have "bindingReachable v" by simp
        with r show ?thesis by (rule below_key)
      qed
    qed
  qed
next
  case (11 i v rest)
  then show ?case
    by (auto simp: indexKey_not_word [simplified] intro: below_item)
qed simp_all

lemma hasBinding_outside:
  "(hasBinding t \<longrightarrow> bindingOutsideAssets t)"
  "(hasBindingProps kvs \<longrightarrow> bindingOutsideProps kvs)"
  "(hasBindingItems i xs \<longrightarrow> bindingOutsideItems xs)"
  by (induction t and kvs and i xs rule: hasBinding_hasBindingProps_hasBindingItems.induct)
     (auto simp: indexKey_not_word [simplified])

text \<open>
  C1. The claim: a mapping node with a key named \<^verbatim>\<open>binding\<close> or \<^verbatim>\<open>bindings\<close> makes
  \<^verbatim>\<open>hasBinding\<close> true whatever the position of that key. On the code the loop returns in
  its first iteration that is not an \<^verbatim>\<open>assets\<close> key: for the node
  \<^verbatim>\<open>{"id": "abc", "binding": "MY_KV"}\<close> it returns \<^verbatim>\<open>hasBinding("abc")\<close>, which is false, and so
  it does for the configuration \<^verbatim>\<open>{"kv_namespaces": [{"id": "abc", "binding": "MY_KV"}]}\<close>.
\<close>

theorem hasBinding_misses_binding_after_first_key:
  "\<not> hasBinding (JObj [(js ''id'', JStr (js ''abc'')), (js ''binding'', JStr (js ''MY_KV''))])
   \<and> \<not> hasBinding (JObj [(js ''kv_namespaces'',
          JArr [JObj [(js ''id'', JStr (js ''abc'')), (js ''binding'', JStr (js ''MY_KV''))]])])"
  by (simp add: hasBindingItems_first del: hasBindingItems.simps)

text \<open>
  C2. \<^verbatim>\<open>hasBinding\<close> is true for every tree in which a binding key is reachable by the
  first-key-only descent; it is false for every tree without a binding key outside the
  \<^verbatim>\<open>assets\<close> subtrees (so also when the only binding keys lie inside one); it is false on
  \<^verbatim>\<open>null\<close>, \<^verbatim>\<open>undefined\<close> and every leaf that is neither a mapping nor a sequence.
\<close>

theorem hasBinding_first_key_descent:
  "(bindingReachable t \<longrightarrow> hasBinding t)
   \<and> (\<not> bindingOutsideAssets t \<longrightarrow> \<not> hasBinding t)
   \<and> \<not> hasBinding JNull \<and> \<not> hasBinding JUndefined
   \<and> \<not> hasBinding (JBool b) \<and> \<not> hasBinding (JNum n) \<and> \<not> hasBinding (JStr s)"
  using reachable_hasBinding [of t] hasBinding_outside(1) [of t] by auto

theorem hasBinding_first_key_descent_witness:
  "bindingReachable (JObj [(js ''assets'', JObj [(js ''binding'', JStr (js ''ASSETS''))]),
                           (js ''kv_namespaces'', JArr [JObj [(js ''binding'', JStr (js ''MY_KV''))]])])
   \<and> hasBinding (JObj [(js ''assets'', JObj [(js ''binding'', JStr (js ''ASSETS''))]),
                       (js ''kv_namespaces'', JArr [JObj [(js ''binding'', JStr (js ''MY_KV''))]])])
   \<and> \<not> bindingOutsideAssets (JObj [(js ''assets'', JObj [(js ''binding'', JStr (js ''ASSETS''))])])
   \<and> \<not> hasBinding (JObj [(js ''assets'', JObj [(js ''binding'', JStr (js ''ASSETS''))])])"
proof -
  let ?inner = "JObj [(js ''binding'', JStr (js ''MY_KV''))]"
  let ?t = "JObj [(js ''assets'', JObj [(js ''binding'', JStr (js ''ASSETS''))]),
                  (js ''kv_namespaces'', JArr [?inner])]"
  let ?u = "JObj [(js ''assets'', JObj [(js ''binding'', JStr (js ''ASSETS''))])]"
  have "remainingKeys [(js ''binding'', JStr (js ''MY_KV''))] = [(js ''binding'', JStr (js ''MY_KV''))]"
    by (simp add: remainingKeys_def)
  then have "bindingReachable ?inner" by (rule at_key) simp
  then have "bindingReachable (JArr [?inner])" by (rule below_item)
  moreover have "remainingKeys [(js ''assets'', JObj [(js ''binding'', JStr (js ''ASSETS''))]),
                                (js ''kv_namespaces'', JArr [?inner])]
                 = [(js ''kv_namespaces'', JArr [?inner])]"
    by (simp add: remainingKeys_def)
  ultimately have r: "bindingReachable ?t" by (rule below_key [rotated])
  have o: "\<not> bindingOutsideAssets ?u" by simp
  from r o hasBinding_first_key_descent [of ?t] hasBinding_first_key_descent [of ?u]
  show ?thesis by blast
qed

subsection \<open>Line endings\<close>

lemma crlfToLf_line:
  "0x0D \<notin> set l \<Longrightarrow> crlfToLf (l @ 0x0D # 0x0A # rest) = l @ 0x0A # crlfToLf rest"
proof (induction l)
  case Nil
  then show ?case by simp
next
  case (Cons a l)
  then show ?case by (cases l) auto
qed

lemma crlfToLf_no_CR: "0x0D \<notin> set l \<Longrightarrow> crlfToLf l = l"
  by (induction l rule: crlfToLf.induct) auto

lemma crlfToLf_lines_Cons:
  "\<forall>l\<in>set (p # ps). 0x0D \<notin> set l \<Longrightarrow>
     crlfToLf (joinWith [0x0D, 0x0A] (p # ps)) = joinWith [0x0A] (p # ps)"
proof (induction ps arbitrary: p)
  case Nil
  then show ?case by (simp add: crlfToLf_no_CR)
next
  case (Cons q qs)
  from Cons.prems have p: "0x0D \<notin> set p" and r: "\<forall>l\<in>set (q # qs). 0x0D \<notin> set l"
    by simp_all
  have "crlfToLf (joinWith [0x0D, 0x0A] (p # q # qs))
        = crlfToLf (p @ 0x0D # 0x0A # joinWith [0x0D, 0x0A] (q # qs))"
    by simp
  also have "\<dots> = p @ 0x0A # crlfToLf (joinWith [0x0D, 0x0A] (q # qs))"
    using p by (rule crlfToLf_line)
  also have "\<dots> = p @ 0x0A # joinWith [0x0A] (q # qs)"
    using Cons.IH [OF r] by simp
  finally show ?case by simp
qed

lemma crlfToLf_lines:
  "\<forall>l\<in>set ls. 0x0D \<notin> set l \<Longrightarrow>
     crlfToLf (joinWith [0x0D, 0x0A] ls) = joinWith [0x0A] ls"
proof (cases ls)
  case Nil
  then show ?thesis by simp
next
  case (Cons p ps)
  assume "\<forall>l\<in>set ls. 0x0D \<notin> set l"
  then show ?thesis unfolding Cons by (rule crlfToLf_lines_Cons)
qed

text \<open>
  C7. For a context whose platform is \<^verbatim>\<open>pages\<close>, \<^verbatim>\<open>isDeployable\<close> returns true whatever the
  files and the parsers are. For any other context it returns the negation of
  \<^verbatim>\<open>hasBinding\<close> of the parsed tree: the tree of the JSON/JSONC text when that file
  exists, else the tree \<^verbatim>\<open>TOML.parse\<close> gives for the TOML text after \<^verbatim>\<open>replace(/\r\n/g, "\n")\<close>.
  That replacement turns lines joined by CRLF into the same lines joined by LF.
\<close>

theorem isDeployable_gate:
  "(platform ctx = js ''pages'' \<longrightarrow> isDeployable jsoncParse tomlParse files ctx = Inr True)
   \<and> (platform ctx \<noteq> js ''pages'' \<and> wranglerJson files = Some jsonStr \<longrightarrow>
        isDeployable jsoncParse tomlParse files ctx = Inr (\<not> hasBinding (jsoncParse jsonStr)))
   \<and> (platform ctx \<noteq> js ''pages'' \<and> wranglerJson files = None
        \<and> wranglerToml files = Inr tomlStr \<and> tomlParse (crlfToLf tomlStr) = Inr tree \<longrightarrow>
        isDeployable jsoncParse tomlParse files ctx = Inr (\<not> hasBinding tree))
   \<and> ((\<forall>l\<in>set ls. 0x0D \<notin> set l) \<longrightarrow>
        crlfToLf (joinWith [0x0D, 0x0A] ls) = joinWith [0x0A] ls)"
proof (intro conjI impI)
  assume "platform ctx = js ''pages''"
  then show "isDeployable jsoncParse tomlParse files ctx = Inr True"
    by (simp add: isDeployable_def)
next
  assume "platform ctx \<noteq> js ''pages'' \<and> wranglerJson files = Some jsonStr"
  then show "isDeployable jsoncParse tomlParse files ctx = Inr (\<not> hasBinding (jsoncParse jsonStr))"
    by (simp add: isDeployable_def readWranglerConfig_def)
next
  assume "platform ctx \<noteq> js ''pages'' \<and> wranglerJson files = None
        \<and> wranglerToml files = Inr tomlStr \<and> tomlParse (crlfToLf tomlStr) = Inr tree"
  then show "isDeployable jsoncParse tomlParse files ctx = Inr (\<not> hasBinding tree)"
    by (simp add: isDeployable_def readWranglerConfig_def)
next
  assume "\<forall>l\<in>set ls. 0x0D \<notin> set l"
  then show "crlfToLf (joinWith [0x0D, 0x0A] ls) = joinWith [0x0A] ls"
    by (rule crlfToLf_lines)
qed

theorem isDeployable_gate_witness:
  "isDeployable (\<lambda>s. JNull) (\<lambda>s. Inl SyntaxError)
       \<lparr>wranglerJson = None, wranglerToml = Inl ReadError\<rparr>
       \<lparr>platform = js ''pages'', account_id = None, deployment_url = None,
        args_open = False, url_assignments = 0\<rparr> = Inr True
   \<and> isDeployable (\<lambda>s. JObj [(js ''name'', JStr s)]) (\<lambda>s. Inl SyntaxError)
       \<lparr>wranglerJson = Some (js ''w''), wranglerToml = Inr (js ''x'')\<rparr>
       \<lparr>platform = js ''workers'', account_id = None, deployment_url = None,
        args_open = False, url_assignments = 0\<rparr> = Inr True
   \<and> isDeployable (\<lambda>s. JNull)
       (\<lambda>s. if s = [(of_char (CHR ''a'')), 0x0A, (of_char (CHR ''b''))] then Inr (JObj [(js ''bindings'', JArr [])])
            else Inl SyntaxError)
       \<lparr>wranglerJson = None, wranglerToml = Inr [(of_char (CHR ''a'')), 0x0D, 0x0A, (of_char (CHR ''b''))]\<rparr>
       \<lparr>platform = js ''workers'', account_id = None, deployment_url = None,
        args_open = False, url_assignments = 0\<rparr> = Inr False
   \<and> crlfToLf (joinWith [0x0D, 0x0A] [js ''a'', js ''b'']) = joinWith [0x0A] [js ''a'', js ''b'']"
proof -
  let ?pages = "\<lparr>platform = js ''pages'', account_id = None, deployment_url = None,
        args_open = False, url_assignments = 0\<rparr>"
  let ?workers = "\<lparr>platform = js ''workers'', account_id = None, deployment_url = None,
        args_open = False, url_assignments = 0\<rparr>"
  let ?toml = "\<lambda>s. if s = [(of_char (CHR ''a'')), 0x0A, (of_char (CHR ''b''))] then Inr (JObj [(js ''bindings'', JArr [])])
            else Inl SyntaxError"
  have a: "isDeployable (\<lambda>s. JNull) (\<lambda>s. Inl SyntaxError)
       \<lparr>wranglerJson = None, wranglerToml = Inl ReadError\<rparr> ?pages = Inr True"
    using isDeployable_gate [of ?pages "\<lambda>s. JNull" "\<lambda>s. Inl SyntaxError"
        "\<lparr>wranglerJson = None, wranglerToml = Inl ReadError\<rparr>"]
    by simp
  have b: "isDeployable (\<lambda>s. JObj [(js ''name'', JStr s)]) (\<lambda>s. Inl SyntaxError)
       \<lparr>wranglerJson = Some (js ''w''), wranglerToml = Inr (js ''x'')\<rparr> ?workers = Inr True"
    using isDeployable_gate [of ?workers "\<lambda>s. JObj [(js ''name'', JStr s)]" "\<lambda>s. Inl SyntaxError"
        "\<lparr>wranglerJson = Some (js ''w''), wranglerToml = Inr (js ''x'')\<rparr>" "js ''w''"]
    by simp
  have c: "isDeployable (\<lambda>s. JNull) ?toml
       \<lparr>wranglerJson = None, wranglerToml = Inr [(of_char (CHR ''a'')), 0x0D, 0x0A, (of_char (CHR ''b''))]\<rparr>
       ?workers = Inr False"
    using isDeployable_gate [of ?workers "\<lambda>s. JNull" ?toml
        "\<lparr>wranglerJson = None, wranglerToml = Inr [(of_char (CHR ''a'')), 0x0D, 0x0A, (of_char (CHR ''b''))]\<rparr>"
        _ "[(of_char (CHR ''a'')), 0x0D, 0x0A, (of_char (CHR ''b''))]" "JObj [(js ''bindings'', JArr [])]"]
    by simp
  have d: "crlfToLf (joinWith [0x0D, 0x0A] [js ''a'', js ''b'']) = joinWith [0x0A] [js ''a'', js ''b'']"
    using isDeployable_gate [of ?pages _ _ _ _ _ _ "[js ''a'', js ''b'']"] by simp
  from a b c d show ?thesis by (intro conjI)
qed

section \<open>Verification: opening the browser\<close>

text \<open>
  C8. \<^verbatim>\<open>maybeOpenBrowser\<close> opens the browser on a url exactly when that url is the
  (non-empty) deployment url of the context, the poll of it succeeded and the \<^verbatim>\<open>open\<close>
  argument is set; in every other case no browser is opened.
\<close>

theorem maybeOpenBrowser_opens:
  "(OpenInBrowser u \<in> set (maybeOpenBrowser poll ctx)) =
     (deployment_url ctx = Some u \<and> u \<noteq> [] \<and> poll u \<and> args_open ctx)"
proof (cases "deployment_url ctx")
  case None
  then show ?thesis by (simp add: maybeOpenBrowser_def)
next
  case (Some url)
  then show ?thesis by (cases "url = u") (auto simp add: maybeOpenBrowser_def)
qed

section \<open>Verification: the name resolver\<close>

lemma filter_all: "\<forall>c\<in>set xs. P c \<Longrightarrow> filter P xs = xs"
  by (induction xs) auto

text \<open>
  C3, as claimed: the entries are filtered to those named exactly as the query, and zero
  matches give the not-found error. In the test "should not delete when many certificates
  are found by name" the listing answers two certificates named \<^verbatim>\<open>cert one\<close> to the query
  \<^verbatim>\<open>my-cert\<close>: no entry has the queried name, and the expected error is the one for several
  matches, which is what counting the answer as it is gives and what filtering does not.
\<close>

theorem getMTlsCertificateByName_counts_unfiltered:
  \<open>getMTlsCertificateByName
     [\<lparr>cert_id = js ''1234'', cert_name = Some (js ''cert one''), certificates = js ''BEGIN CERTIFICATE...'',
       issuer = js ''example.com...'', uploaded_on = js ''now'', expires_on = js ''oneYearLater''\<rparr>,
      \<lparr>cert_id = js ''5678'', cert_name = Some (js ''cert one''), certificates = js ''BEGIN CERTIFICATE...'',
       issuer = js ''example.com...'', uploaded_on = js ''now'', expires_on = js ''oneYearLater''\<rparr>]
     (js ''my-cert'')
   = Inl (AmbiguousNameError (js ''multiple certificates found with name "my-cert"''))
   \<and> filter (\<lambda>c. cert_name c = Some (js ''my-cert''))
     [\<lparr>cert_id = js ''1234'', cert_name = Some (js ''cert one''), certificates = js ''BEGIN CERTIFICATE...'',
       issuer = js ''example.com...'', uploaded_on = js ''now'', expires_on = js ''oneYearLater''\<rparr>,
      \<lparr>cert_id = js ''5678'', cert_name = Some (js ''cert one''), certificates = js ''BEGIN CERTIFICATE...'',
       issuer = js ''example.com...'', uploaded_on = js ''now'', expires_on = js ''oneYearLater''\<rparr>] = []
   \<and> resolveByName
     [\<lparr>cert_id = js ''1234'', cert_name = Some (js ''cert one''), certificates = js ''BEGIN CERTIFICATE...'',
       issuer = js ''example.com...'', uploaded_on = js ''now'', expires_on = js ''oneYearLater''\<rparr>,
      \<lparr>cert_id = js ''5678'', cert_name = Some (js ''cert one''), certificates = js ''BEGIN CERTIFICATE...'',
       issuer = js ''example.com...'', uploaded_on = js ''now'', expires_on = js ''oneYearLater''\<rparr>]
     (js ''my-cert'')
   = Inl (NotFoundError (js ''certificate not found with name "my-cert"''))\<close>
  by (simp add: getMTlsCertificateByName_def resolveByName_def notFoundMessage_def manyFoundMessage_def)

text \<open>
  C3, amended. \<^verbatim>\<open>getMTlsCertificateByName\<close> decides on the entries the listing returned for
  the queried name, without filtering them again: no entry gives the not-found error with
  the queried name in the message, exactly one entry is returned, two or more give the
  several-matches error with the queried name in the message, and none of several is ever
  picked. When every returned entry has the queried name this is the outcome of filtering
  by exact name.
\<close>

theorem getMTlsCertificateByName_outcomes:
  \<open>(listing = [] \<longrightarrow>
      getMTlsCertificateByName listing name
        = Inl (NotFoundError (js ''certificate not found with name "'' @ name @ js ''"'')))
   \<and> (listing = [certificate] \<longrightarrow> getMTlsCertificateByName listing name = Inr certificate)
   \<and> (2 \<le> length listing \<longrightarrow>
      getMTlsCertificateByName listing name
        = Inl (AmbiguousNameError (js ''multiple certificates found with name "'' @ name @ js ''"'')))
   \<and> ((\<forall>c\<in>set listing. cert_name c = Some name) \<longrightarrow>
      getMTlsCertificateByName listing name = resolveByName listing name)\<close>
proof (intro conjI impI)
  assume "listing = []"
  then show \<open>getMTlsCertificateByName listing name
        = Inl (NotFoundError (js ''certificate not found with name "'' @ name @ js ''"''))\<close>
    by (simp add: getMTlsCertificateByName_def notFoundMessage_def)
next
  assume "listing = [certificate]"
  then show "getMTlsCertificateByName listing name = Inr certificate"
    by (simp add: getMTlsCertificateByName_def)
next
  assume "2 \<le> length listing"
  then obtain a b rest where "listing = a # b # rest"
    by (cases listing; cases "tl listing") auto
  then show \<open>getMTlsCertificateByName listing name
        = Inl (AmbiguousNameError (js ''multiple certificates found with name "'' @ name @ js ''"''))\<close>
    by (simp add: getMTlsCertificateByName_def manyFoundMessage_def)
next
  assume "\<forall>c\<in>set listing. cert_name c = Some name"
  then have "filter (\<lambda>c. cert_name c = Some name) listing = listing" by (rule filter_all)
  then show "getMTlsCertificateByName listing name = resolveByName listing name"
    by (simp add: getMTlsCertificateByName_def resolveByName_def)
qed


theorem getMTlsCertificateByName_outcomes_witness:
  \<open>getMTlsCertificateByName [] (js ''cert one'')
     = Inl (NotFoundError (js ''certificate not found with name "cert one"''))
   \<and> getMTlsCertificateByName
       [\<lparr>cert_id = js ''1234'', cert_name = Some (js ''cert one''), certificates = js ''BEGIN CERTIFICATE...'',
         issuer = js ''example.com...'', uploaded_on = js ''now'', expires_on = js ''oneYearLater''\<rparr>]
       (js ''cert one'')
     = Inr \<lparr>cert_id = js ''1234'', cert_name = Some (js ''cert one''), certificates = js ''BEGIN CERTIFICATE...'',
         issuer = js ''example.com...'', uploaded_on = js ''now'', expires_on = js ''oneYearLater''\<rparr>
   \<and> getMTlsCertificateByName
       [\<lparr>cert_id = js ''1234'', cert_name = Some (js ''cert one''), certificates = js ''BEGIN CERTIFICATE...'',
         issuer = js ''example.com...'', uploaded_on = js ''now'', expires_on = js ''oneYearLater''\<rparr>,
        \<lparr>cert_id = js ''5678'', cert_name = Some (js ''cert one''), certificates = js ''BEGIN CERTIFICATE...'',
         issuer = js ''example.com...'', uploaded_on = js ''now'', expires_on = js ''oneYearLater''\<rparr>]
       (js ''cert one'')
     = Inl (AmbiguousNameError (js ''multiple certificates found with name "cert one"''))
   \<and> getMTlsCertificateByName
       [\<lparr>cert_id = js ''1234'', cert_name = Some (js ''cert one''), certificates = js ''BEGIN CERTIFICATE...'',
         issuer = js ''example.com...'', uploaded_on = js ''now'', expires_on = js ''oneYearLater''\<rparr>]
       (js ''cert one'')
     = resolveByName
       [\<lparr>cert_id = js ''1234'', cert_name = Some (js ''cert one''), certificates = js ''BEGIN CERTIFICATE...'',
         issuer = js ''example.com...'', uploaded_on = js ''now'', expires_on = js ''oneYearLater''\<rparr>]
       (js ''cert one'')\<close>
proof -
  let ?c1 = "\<lparr>cert_id = js ''1234'', cert_name = Some (js ''cert one''), certificates = js ''BEGIN CERTIFICATE...'',
         issuer = js ''example.com...'', uploaded_on = js ''now'', expires_on = js ''oneYearLater''\<rparr>"
  let ?c2 = "\<lparr>cert_id = js ''5678'', cert_name = Some (js ''cert one''), certificates = js ''BEGIN CERTIFICATE...'',
         issuer = js ''example.com...'', uploaded_on = js ''now'', expires_on = js ''oneYearLater''\<rparr>"
  have a: \<open>getMTlsCertificateByName [] (js ''cert one'')
     = Inl (NotFoundError (js ''certificate not found with name "cert one"''))\<close>
    using getMTlsCertificateByName_outcomes [of "[]" "js ''cert one''"] by simp
  have b: "getMTlsCertificateByName [?c1] (js ''cert one'') = Inr ?c1"
    using getMTlsCertificateByName_outcomes [of "[?c1]" "js ''cert one''" ?c1] by simp
  have c: \<open>getMTlsCertificateByName [?c1, ?c2] (js ''cert one'')
     = Inl (AmbiguousNameError (js ''multiple certificates found with name "cert one"''))\<close>
    using getMTlsCertificateByName_outcomes [of "[?c1, ?c2]" "js ''cert one''"] by simp
  have d: "getMTlsCertificateByName [?c1] (js ''cert one'') = resolveByName [?c1] (js ''cert one'')"
    using getMTlsCertificateByName_outcomes [of "[?c1]" "js ''cert one''"] by simp
  from a b c d show ?thesis by (intro conjI)
qed

section \<open>Verification: the url pattern\<close>

lemma regexDomain_Some: "regexDomain s = Some d \<Longrightarrow> isDomain d \<and> prefix d s"
  by (auto simp: regexDomain_def isDomain_def split: if_splits)

lemma regexDomain_prefix: "isDomain d \<Longrightarrow> regexDomain (d @ post) \<noteq> None"
  by (auto simp: regexDomain_def isDomain_def)

lemma regexRest_sound:
  "regexRest s = Some m \<Longrightarrow>
     \<exists>mid d. m = mid @ d \<and> (\<forall>c\<in>set mid. \<not> lineTerminator c) \<and> isDomain d \<and> prefix m s"
proof (induction s arbitrary: m)
  case Nil
  then show ?case by (simp add: regexDomain_def)
next
  case (Cons c cs)
  show ?case
  proof (cases "if lineTerminator c then None else regexRest cs")
    case None
    with Cons.prems have "regexDomain (c # cs) = Some m" by simp
    then have "isDomain m \<and> prefix m (c # cs)" by (rule regexDomain_Some)
    then have "m = [] @ m \<and> (\<forall>c\<in>set []. \<not> lineTerminator c) \<and> isDomain m \<and> prefix m (c # cs)"
      by simp
    then show ?thesis by blast
  next
    case (Some m')
    then have nl: "\<not> lineTerminator c" and r: "regexRest cs = Some m'"
      by (auto split: if_splits)
    from Some Cons.prems have m: "m = c # m'" by simp
    from Cons.IH [OF r] obtain mid d where
      "m' = mid @ d" "\<forall>c\<in>set mid. \<not> lineTerminator c" "isDomain d" "prefix m' cs"
      by blast
    with nl m have "m = (c # mid) @ d \<and> (\<forall>x\<in>set (c # mid). \<not> lineTerminator x) \<and> isDomain d
        \<and> prefix m (c # cs)"
      by simp
    then show ?thesis by blast
  qed
qed

lemma regexRest_complete:
  "\<forall>c\<in>set mid. \<not> lineTerminator c \<Longrightarrow> isDomain d \<Longrightarrow> regexRest (mid @ d @ post) \<noteq> None"
proof (induction mid)
  case Nil
  from Nil(2) obtain x xs where d: "d = x # xs" by (auto simp: isDomain_def)
  from Nil(2) have "regexDomain (d @ post) \<noteq> None" by (rule regexDomain_prefix)
  then show ?case unfolding d by (simp split: option.splits)
next
  case (Cons c mid)
  then show ?case by (auto split: option.splits)
qed

lemma regexAt_sound: "regexAt s = Some m \<Longrightarrow> urlShaped m \<and> prefix m s"
proof -
  assume a: "regexAt s = Some m"
  then have p: "prefix (js ''https://'') s" by (auto simp: regexAt_def split: if_splits)
  then obtain r where s: "s = js ''https://'' @ r" by (auto simp: prefix_def)
  then have dr: "drop 8 s = r" by simp
  from a p dr obtain c cs m' where r: "r = c # cs" and nl: "\<not> lineTerminator c"
    and rr: "regexRest cs = Some m'" and m: "m = js ''https://'' @ c # m'"
    unfolding regexAt_def by (auto split: if_splits list.splits)
  from regexRest_sound [OF rr] obtain mid d where
    md: "m' = mid @ d" "\<forall>c\<in>set mid. \<not> lineTerminator c" "isDomain d" "prefix m' cs"
    by blast
  have "m = js ''https://'' @ (c # mid) @ d" using m md by simp
  moreover have "c # mid \<noteq> []" by simp
  moreover have "\<forall>x\<in>set (c # mid). \<not> lineTerminator x" using nl md by simp
  ultimately have "urlShaped m" using md(3) unfolding urlShaped_def isDomain_def by blast
  moreover have "prefix m s" using m s r md(4) by simp
  ultimately show ?thesis by simp
qed

lemma regexAt_complete: "urlShaped m \<Longrightarrow> regexAt (m @ post) \<noteq> None"
proof -
  assume "urlShaped m"
  then obtain mid d where m: "m = js ''https://'' @ mid @ d" and ne: "mid \<noteq> []"
    and nl: "\<forall>c\<in>set mid. \<not> lineTerminator c" and d: "isDomain d"
    unfolding urlShaped_def isDomain_def by blast
  from ne obtain c mid' where mid: "mid = c # mid'" by (cases mid) auto
  from nl mid have "\<forall>c\<in>set mid'. \<not> lineTerminator c" and c: "\<not> lineTerminator c" by simp_all
  then have "regexRest (mid' @ d @ post) \<noteq> None" using d by (intro regexRest_complete)
  then show ?thesis using c unfolding m mid regexAt_def by simp
qed

lemma deployedUrlMatch_sound:
  "deployedUrlMatch v = Some m \<Longrightarrow> urlShaped m \<and> (\<exists>pre post. v = pre @ m @ post)"
proof (induction v)
  case Nil
  then show ?case by (simp add: regexAt_def)
next
  case (Cons c cs)
  show ?case
  proof (cases "regexAt (c # cs)")
    case None
    with Cons.prems have "deployedUrlMatch cs = Some m" by simp
    from Cons.IH [OF this] obtain pre post where "urlShaped m" "cs = pre @ m @ post" by blast
    then have "urlShaped m \<and> c # cs = (c # pre) @ m @ post" by simp
    then show ?thesis by blast
  next
    case (Some m')
    with Cons.prems have "m' = m" by simp
    with Some have "urlShaped m \<and> prefix m (c # cs)" using regexAt_sound by blast
    then obtain post where "urlShaped m" "c # cs = [] @ m @ post" by (auto simp: prefix_def)
    then show ?thesis by blast
  qed
qed

lemma deployedUrlMatch_complete:
  "urlShaped m \<Longrightarrow> deployedUrlMatch (pre @ m @ post) \<noteq> None"
proof (induction pre)
  case Nil
  then have r: "regexAt (m @ post) \<noteq> None" by (rule regexAt_complete)
  show ?case
  proof (cases "m @ post")
    case Nil
    with r show ?thesis by simp
  next
    case (Cons a list)
    with r show ?thesis by (auto split: option.splits)
  qed
next
  case (Cons c pre)
  then show ?case by (simp split: option.splits)
qed

lemma deployedUrlMatch_iff: "(deployedUrlMatch v \<noteq> None) = containsText urlShaped v"
proof
  assume "deployedUrlMatch v \<noteq> None"
  then obtain m where "deployedUrlMatch v = Some m" by blast
  from deployedUrlMatch_sound [OF this] show "containsText urlShaped v"
    unfolding containsText_def by blast
next
  assume "containsText urlShaped v"
  then obtain pre m post where "v = pre @ m @ post" "urlShaped m"
    unfolding containsText_def by blast
  then show "deployedUrlMatch v \<noteq> None" using deployedUrlMatch_complete by simp
qed

lemma isDomain_unique:
  "isDomain d \<Longrightarrow> isDomain d' \<Longrightarrow> prefix d s \<Longrightarrow> prefix d' s \<Longrightarrow> d = d'"
  by (auto simp: isDomain_def prefix_def)

lemma isDomain_length: "isDomain d \<Longrightarrow> 10 \<le> length d \<and> length d \<le> 12"
  by (auto simp: isDomain_def)

lemma regexRest_longest:
  "regexRest s = Some m \<Longrightarrow> restShaped m' \<Longrightarrow> prefix m' s \<Longrightarrow> length m' \<le> length m"
proof (induction s arbitrary: m m')
  case Nil
  then show ?case by (simp add: regexDomain_def)
next
  case (Cons c cs)
  from Cons.prems(2) obtain mid' d' where m': "m' = mid' @ d'"
    and nl': "\<forall>x\<in>set mid'. \<not> lineTerminator x" and d': "isDomain d'"
    unfolding restShaped_def by blast
  show ?case
  proof (cases "if lineTerminator c then None else regexRest cs")
    case None
    with Cons.prems(1) have "regexDomain (c # cs) = Some m" by simp
    then have dm: "isDomain m" "prefix m (c # cs)" using regexDomain_Some by blast+
    show ?thesis
    proof (cases mid')
      case Nil
      with m' Cons.prems(3) d' dm have "m' = m" using isDomain_unique by simp
      then show ?thesis by simp
    next
      case (Cons x mid'')
      with m' Cons.prems(3) have x: "x = c" and p: "prefix (mid'' @ d') cs" by simp_all
      from nl' Cons x have "\<not> lineTerminator c" and nl'': "\<forall>x\<in>set mid''. \<not> lineTerminator x"
        by simp_all
      with None have n: "regexRest cs = None" by simp
      from p obtain post where "cs = mid'' @ d' @ post" by (auto simp: prefix_def)
      with regexRest_complete [OF nl'' d', of post] n show ?thesis by simp
    qed
  next
    case (Some m0)
    then have nl: "\<not> lineTerminator c" and r: "regexRest cs = Some m0"
      by (auto split: if_splits)
    from Some Cons.prems(1) have m: "m = c # m0" by simp
    show ?thesis
    proof (cases mid')
      case (Cons x mid'')
      with m' Cons.prems(3) have p: "prefix (mid'' @ d') cs" by simp
      from nl' Cons have "\<forall>x\<in>set mid''. \<not> lineTerminator x" by simp
      with d' have "restShaped (mid'' @ d')" unfolding restShaped_def by blast
      from Cons.IH [OF r this p] show ?thesis unfolding m m' Cons by simp
    next
      case Nil
      with m' have md: "m' = d'" by simp
      from regexRest_sound [OF r] obtain mid0 d0 where
        m0: "m0 = mid0 @ d0" and d0: "isDomain d0" and p0: "prefix m0 cs" by blast
      have "length d' \<le> Suc (length m0)"
      proof (cases "d' = js ''.pages.dev''")
        case True
        then show ?thesis using isDomain_length [OF d0] m0 by simp
      next
        case False
        with d' have w: "d' = js ''.workers.dev''" by (simp add: isDomain_def)
        with md Cons.prems(3) have pc: "prefix (js ''workers.dev'') cs" by simp
        have "mid0 \<noteq> []"
        proof
          assume "mid0 = []"
          with m0 p0 have "prefix d0 cs" by simp
          with pc d0 show False by (auto simp: isDomain_def prefix_def)
        qed
        then have "1 \<le> length mid0" by (cases mid0) simp_all
        then show ?thesis using isDomain_length [OF d0] m0 w by simp
      qed
      then show ?thesis unfolding m md by simp
    qed
  qed
qed

lemma regexAt_longest:
  assumes "regexAt s = Some m" and "urlShaped m'" and "prefix m' s"
  shows "length m' \<le> length m"
proof -
  from assms(1) have p: "prefix (js ''https://'') s" by (auto simp: regexAt_def split: if_splits)
  then obtain r where s: "s = js ''https://'' @ r" by (auto simp: prefix_def)
  then have dr: "drop 8 s = r" by simp
  from assms(1) p dr obtain c cs m0 where r: "r = c # cs"
    and rr: "regexRest cs = Some m0" and m: "m = js ''https://'' @ c # m0"
    unfolding regexAt_def by (auto split: if_splits list.splits)
  from assms(2) obtain mid d where m': "m' = js ''https://'' @ mid @ d" and ne: "mid \<noteq> []"
    and nl: "\<forall>c\<in>set mid. \<not> lineTerminator c" and d: "isDomain d"
    unfolding urlShaped_def isDomain_def by blast
  from ne obtain x mid' where mid: "mid = x # mid'" by (cases mid) auto
  from assms(3) have "prefix (mid @ d) r" unfolding m' s by simp
  then have p': "prefix (mid' @ d) cs" unfolding mid r by simp
  from nl mid have "\<forall>c\<in>set mid'. \<not> lineTerminator c" by simp
  with d have "restShaped (mid' @ d)" unfolding restShaped_def by blast
  from regexRest_longest [OF rr this p'] show ?thesis unfolding m m' mid by simp
qed

lemma deployedUrlMatch_leftmost: "deployedUrlMatch v = Some m \<Longrightarrow> patternMatch v m"
proof (induction v)
  case Nil
  then show ?case by (simp add: regexAt_def)
next
  case (Cons c cs)
  show ?case
  proof (cases "regexAt (c # cs)")
    case (Some m0)
    with Cons.prems have m0: "m0 = m" by simp
    with Some have ra: "regexAt (c # cs) = Some m" by simp
    then have us: "urlShaped m" and pm: "prefix m (c # cs)" using regexAt_sound by blast+
    from pm obtain post where v: "c # cs = [] @ m @ post" by (auto simp: prefix_def)
    have "\<forall>pre' m' post'. c # cs = pre' @ m' @ post' \<and> urlShaped m' \<longrightarrow>
              length ([]::jsstring) < length pre'
              \<or> (length pre' = length ([]::jsstring) \<and> length m' \<le> length m)"
    proof (intro allI impI)
      fix pre' m' post'
      assume a: "c # cs = pre' @ m' @ post' \<and> urlShaped m'"
      show "length ([]::jsstring) < length pre'
              \<or> (length pre' = length ([]::jsstring) \<and> length m' \<le> length m)"
      proof (cases pre')
        case Nil
        with a have "prefix m' (c # cs)" by (simp add: prefix_def)
        with regexAt_longest [OF ra] a Nil show ?thesis by simp
      next
        case (Cons x xs)
        then show ?thesis by simp
      qed
    qed
    with v us show ?thesis unfolding patternMatch_def by blast
  next
    case None
    with Cons.prems have "deployedUrlMatch cs = Some m" by simp
    from Cons.IH [OF this] obtain pre post where cs: "cs = pre @ m @ post" and us: "urlShaped m"
      and mn: "\<forall>pre' m' post'. cs = pre' @ m' @ post' \<and> urlShaped m' \<longrightarrow>
              length pre < length pre' \<or> (length pre' = length pre \<and> length m' \<le> length m)"
      unfolding patternMatch_def by blast
    have v: "c # cs = (c # pre) @ m @ post" using cs by simp
    have "\<forall>pre' m' post'. c # cs = pre' @ m' @ post' \<and> urlShaped m' \<longrightarrow>
              length (c # pre) < length pre'
              \<or> (length pre' = length (c # pre) \<and> length m' \<le> length m)"
    proof (intro allI impI)
      fix pre' m' post'
      assume a: "c # cs = pre' @ m' @ post' \<and> urlShaped m'"
      show "length (c # pre) < length pre'
              \<or> (length pre' = length (c # pre) \<and> length m' \<le> length m)"
      proof (cases pre')
        case Nil
        with a have "c # cs = m' @ post'" by simp
        with regexAt_complete [of m' post'] a None show ?thesis by simp
      next
        case (Cons x xs)
        with a have "cs = xs @ m' @ post' \<and> urlShaped m'" by simp
        with mn have "length pre < length xs \<or> (length xs = length pre \<and> length m' \<le> length m)"
          by blast
        then show ?thesis unfolding Cons by simp
      qed
    qed
    with v us show ?thesis unfolding patternMatch_def by blast
  qed
qed

lemma patternMatch_unique: "patternMatch v m \<Longrightarrow> patternMatch v m' \<Longrightarrow> m = m'"
proof -
  assume pm: "patternMatch v m" and pm': "patternMatch v m'"
  from pm obtain pre post where
    v: "v = pre @ m @ post" and us: "urlShaped m"
    and mn: "\<And>p x q. v = p @ x @ q \<Longrightarrow> urlShaped x \<Longrightarrow>
              length pre < length p \<or> (length p = length pre \<and> length x \<le> length m)"
    unfolding patternMatch_def by (elim exE conjE) simp
  from pm' obtain pre' post' where
    v': "v = pre' @ m' @ post'" and us': "urlShaped m'"
    and mn': "\<And>p x q. v = p @ x @ q \<Longrightarrow> urlShaped x \<Longrightarrow>
              length pre' < length p \<or> (length p = length pre' \<and> length x \<le> length m')"
    unfolding patternMatch_def by (elim exE conjE) simp
  from mn [OF v' us'] have a: "length pre < length pre' \<or> (length pre' = length pre \<and> length m' \<le> length m)" .
  from mn' [OF v us] have b: "length pre' < length pre \<or> (length pre = length pre' \<and> length m \<le> length m')" .
  from a b have lp: "length pre = length pre'" and lm: "length m = length m'" by linarith+
  from v v' lp have "m @ post = m' @ post'" by simp
  with lm show ?thesis by simp
qed

lemma deployedUrlMatch_patternMatch: "(deployedUrlMatch v = Some m) = patternMatch v m"
proof
  assume "deployedUrlMatch v = Some m"
  then show "patternMatch v m" by (rule deployedUrlMatch_leftmost)
next
  assume pm: "patternMatch v m"
  then have "containsText urlShaped v" unfolding patternMatch_def containsText_def by blast
  then have "deployedUrlMatch v \<noteq> None" using deployedUrlMatch_iff [of v] by blast
  then obtain m' where m': "deployedUrlMatch v = Some m'" by blast
  then have "patternMatch v m'" by (rule deployedUrlMatch_leftmost)
  with pm have "m = m'" by (rule patternMatch_unique)
  with m' show "deployedUrlMatch v = Some m" by simp
qed

section \<open>Verification: the extraction rule\<close>

lemma getField_not_nullish:
  "\<not> isNullish e \<Longrightarrow> \<exists>v. getField e key = Inr v"
  by (cases e) (auto simp: getField_def isNullish_def split: option.splits)

lemma findEntry_find:
  "\<forall>e\<in>set entries. \<not> isNullish e \<Longrightarrow>
     findEntry t entries = Inr (case find (hasType t) entries of None \<Rightarrow> JUndefined | Some e \<Rightarrow> e)"
proof (induction entries)
  case Nil
  then show ?case by simp
next
  case (Cons e es)
  then have "\<not> isNullish e" by simp
  then obtain v where v: "getField e (js ''type'') = Inr v" using getField_not_nullish by blast
  from Cons have ih: "findEntry t es = Inr (case find (hasType t) es of None \<Rightarrow> JUndefined | Some e \<Rightarrow> e)"
    by simp
  show ?case
  proof (cases "v = JStr t")
    case True
    with v have "hasType t e" by (simp add: hasType_def)
    then show ?thesis using v True by simp
  next
    case False
    with v have "\<not> hasType t e" by (simp add: hasType_def)
    then show ?thesis using v False ih by simp
  qed
qed

lemma findEntry_found:
  "findEntry t entries = Inr found \<Longrightarrow> \<not> isNullish found \<Longrightarrow> found \<in> set entries \<and> hasType t found"
proof (induction entries)
  case Nil
  then show ?case by (simp add: isNullish_def)
next
  case (Cons e es)
  then show ?case by (auto simp: hasType_def split: sum.splits if_splits)
qed

lemma find_Some_set: "find P xs = Some x \<Longrightarrow> x \<in> set xs \<and> P x"
  by (induction xs) (auto split: if_splits)

lemma hasType_getField: "hasType t e \<Longrightarrow> \<exists>v. getField e key = Inr v"
  by (cases e) (auto simp: hasType_def getField_def split: option.splits)

lemma deployTarget_spec:
  assumes "\<forall>e\<in>set entries. \<not> isNullish e"
  shows "\<exists>v. deployTarget entries = Inr v
           \<and> present v = Option.bind (find (hasType (js ''deploy'')) entries) firstTarget"
proof (cases "find (hasType (js ''deploy'')) entries")
  case None
  then show ?thesis using findEntry_find [OF assms, of "js ''deploy''"]
    by (simp add: deployTarget_def isNullish_def present_def)
next
  case (Some e)
  then have "e \<in> set entries" and ht: "hasType (js ''deploy'') e" using find_Some_set by fastforce+
  with assms have nn: "\<not> isNullish e" by blast
  from ht obtain ts where ts: "getField e (js ''targets'') = Inr ts" using hasType_getField by blast
  have fe: "findEntry (js ''deploy'') entries = Inr e"
    using findEntry_find [OF assms, of "js ''deploy''"] Some by simp
  show ?thesis
  proof (cases "isNullish ts")
    case True
    then show ?thesis using fe Some nn ts
      by (simp add: deployTarget_def firstTarget_def present_def isNullish_def)
  next
    case False
    then show ?thesis using fe Some nn ts
      by (simp add: deployTarget_def firstTarget_def present_def)
  qed
qed

lemma pagesDeployUrl_spec:
  assumes "\<forall>e\<in>set entries. \<not> isNullish e"
  shows "\<exists>v. pagesDeployUrl entries = Inr v
           \<and> present v = Option.bind (find (hasType (js ''pages-deploy'')) entries) urlField"
proof (cases "find (hasType (js ''pages-deploy'')) entries")
  case None
  then show ?thesis using findEntry_find [OF assms, of "js ''pages-deploy''"]
    by (simp add: pagesDeployUrl_def isNullish_def present_def)
next
  case (Some e)
  then have "e \<in> set entries" and ht: "hasType (js ''pages-deploy'') e" using find_Some_set by fastforce+
  with assms have nn: "\<not> isNullish e" by blast
  from ht obtain u where u: "getField e (js ''url'') = Inr u" using hasType_getField by blast
  show ?thesis using findEntry_find [OF assms, of "js ''pages-deploy''"] Some nn u
    by (simp add: pagesDeployUrl_def urlField_def)
qed

lemma present_not_nullish: "present v = Some w \<Longrightarrow> \<not> isNullish w \<and> w = v"
  by (auto simp: present_def split: if_splits)

lemma firstTarget_not_nullish: "firstTarget e = Some w \<Longrightarrow> \<not> isNullish w"
  by (auto simp: firstTarget_def dest: present_not_nullish split: sum.splits option.splits)

lemma matchedUrl_catch:
  "(case matchedUrl v of Inl e \<Rightarrow> None | Inr m \<Rightarrow> Some m) =
     matchOfValue (if isNullish v then None else Some v)"
  by (cases v) (auto simp: matchedUrl_def matchOfValue_def isNullish_def split: option.splits)

lemma matchedUrl_present:
  "(case matchedUrl v of Inl e \<Rightarrow> None | Inr m \<Rightarrow> Some m) = matchOfValue (present v)"
  by (cases v) (auto simp: matchedUrl_def matchOfValue_def present_def isNullish_def split: option.splits)

lemma entriesUrl_spec:
  assumes "\<forall>e\<in>set entries. \<not> isNullish e"
  shows "(case entriesUrl entries of Inl e \<Rightarrow> None | Inr m \<Rightarrow> Some m) =
     matchOfValue (prioritisedValue entries)"
proof -
  from deployTarget_spec [OF assms] obtain v where
    dt: "deployTarget entries = Inr v"
    and pv: "present v = Option.bind (find (hasType (js ''deploy'')) entries) firstTarget" by blast
  from pagesDeployUrl_spec [OF assms] obtain u where
    pu: "pagesDeployUrl entries = Inr u"
    and pp: "present u = Option.bind (find (hasType (js ''pages-deploy'')) entries) urlField" by blast
  show ?thesis
  proof (cases "isNullish v")
    case True
    then have "present v = None" by (simp add: present_def)
    then have "prioritisedValue entries = present u"
      using pv pp by (simp add: prioritisedValue_def)
    then show ?thesis using True dt pu matchedUrl_present [of u]
      by (simp add: entriesUrl_def extractedValue_def)
  next
    case False
    then have "present v = Some v" by (simp add: present_def)
    then have "prioritisedValue entries = present v"
      using pv by (simp add: prioritisedValue_def)
    then show ?thesis using False dt matchedUrl_present [of v]
      by (simp add: entriesUrl_def extractedValue_def)
  qed
qed

lemma recordYieldsUrl_match:
  "recordYieldsUrl entry =
     (matchOfValue
        (if hasType (js ''deploy'') entry then firstTarget entry
         else if hasType (js ''pages-deploy'') entry then urlField entry
         else None) \<noteq> None)"
proof -
  have "\<And>x. (\<exists>v. x = Some (JStr v) \<and> containsText urlShaped v) = (matchOfValue x \<noteq> None)"
  proof -
    fix x show "(\<exists>v. x = Some (JStr v) \<and> containsText urlShaped v) = (matchOfValue x \<noteq> None)"
    proof (cases x)
      case None
      then show ?thesis by (simp add: matchOfValue_def)
    next
      case (Some y)
      then show ?thesis
        using deployedUrlMatch_iff by (cases y) (simp_all add: matchOfValue_def)
    qed
  qed
  then show ?thesis unfolding recordYieldsUrl_def by blast
qed

lemma entriesUrl_yields:
  assumes "entriesUrl entries = Inr m"
  shows "\<exists>e\<in>set entries. recordYieldsUrl e"
proof -
  from assms obtain s where ev: "extractedValue entries = Inr (JStr s)"
    and ms: "deployedUrlMatch s = Some m"
    by (auto simp: entriesUrl_def matchedUrl_def split: sum.splits if_splits jsval.splits option.splits)
  show ?thesis
  proof (cases "deployTarget entries = Inr (JStr s)")
    case True
    then obtain found ts where f: "findEntry (js ''deploy'') entries = Inr found" "\<not> isNullish found"
      and t: "getField found (js ''targets'') = Inr ts" "\<not> isNullish ts" "getFirst ts = JStr s"
      by (auto simp: deployTarget_def split: sum.splits if_splits)
    from findEntry_found [OF f] have "found \<in> set entries" "hasType (js ''deploy'') found" by simp_all
    moreover have "firstTarget found = Some (JStr s)"
      using t by (simp add: firstTarget_def present_def isNullish_def)
    ultimately have "found \<in> set entries" and "recordYieldsUrl found" using ms
      by (simp_all add: recordYieldsUrl_match matchOfValue_def)
    then show ?thesis by blast
  next
    case False
    with ev have pd: "pagesDeployUrl entries = Inr (JStr s)"
      by (auto simp: extractedValue_def split: sum.splits if_splits)
    then obtain found where f: "findEntry (js ''pages-deploy'') entries = Inr found" "\<not> isNullish found"
      and u: "getField found (js ''url'') = Inr (JStr s)"
      by (auto simp: pagesDeployUrl_def split: sum.splits if_splits)
    from findEntry_found [OF f] have m: "found \<in> set entries" and h: "hasType (js ''pages-deploy'') found"
      by simp_all
    from h have nd: "\<not> hasType (js ''deploy'') found" by (simp add: hasType_def)
    have "urlField found = Some (JStr s)" using u by (simp add: urlField_def present_def isNullish_def)
    then have "recordYieldsUrl found" using h nd ms
      by (simp add: recordYieldsUrl_match matchOfValue_def)
    with m show ?thesis by blast
  qed
qed

lemma parseEntries_fails:
  "\<exists>l\<in>set ls. isl (JSON_parse l) \<Longrightarrow> isl (parseEntries JSON_parse ls)"
proof (induction ls)
  case Nil
  then show ?case by simp
next
  case (Cons a ls)
  show ?case
  proof (cases "JSON_parse a")
    case (Inl e)
    then show ?thesis by simp
  next
    case (Inr v)
    with Cons.prems have "\<exists>l\<in>set ls. isl (JSON_parse l)" by auto
    then have "isl (parseEntries JSON_parse ls)" by (rule Cons.IH)
    then show ?thesis using Inr by (auto split: sum.splits)
  qed
qed

section \<open>Verification: splitting and joining\<close>

lemma splitOn_not_Nil: "splitOn sep s \<noteq> []"
  by (induction s) (auto split: list.splits)

lemma splitOn_sep_append: "sep \<noteq> [] \<Longrightarrow> splitOn sep (sep @ t) = [] # splitOn sep t"
  by (cases sep) simp_all

lemma splitOn_first_piece:
  "sep \<noteq> [] \<Longrightarrow> splitOn sep s = p # ps \<Longrightarrow> \<not> sublist sep p \<and> prefix p s"
proof (induction s arbitrary: p ps)
  case Nil
  then show ?case by simp
next
  case (Cons c cs)
  show ?case
  proof (cases "prefix sep (c # cs)")
    case True
    with Cons.prems show ?thesis by simp
  next
    case False
    obtain p' ps' where sp: "splitOn sep cs = p' # ps'"
      using splitOn_not_Nil [of sep cs] by (cases "splitOn sep cs") auto
    with False Cons.prems have p: "p = c # p'" by simp
    from Cons.IH [OF Cons.prems(1) sp] have ih: "\<not> sublist sep p'" "prefix p' cs" by simp_all
    have "\<not> prefix sep (c # p')"
    proof
      assume "prefix sep (c # p')"
      moreover have "prefix (c # p') (c # cs)" using ih(2) by simp
      ultimately have "prefix sep (c # cs)" by (rule prefix_order.trans)
      with False show False by simp
    qed
    with ih show ?thesis unfolding p by (simp add: sublist_Cons_right)
  qed
qed

lemma splitOn_second_piece:
  "sep \<noteq> [] \<Longrightarrow> splitOn sep s = p # q # rest \<Longrightarrow> \<exists>x. s = p @ sep @ x \<and> splitOn sep x = q # rest"
proof (induction s arbitrary: p)
  case Nil
  then show ?case by simp
next
  case (Cons c cs)
  show ?case
  proof (cases "prefix sep (c # cs)")
    case True
    then obtain x where x: "c # cs = sep @ x" by (auto simp: prefix_def)
    then have "drop (length sep) (c # cs) = x" by (metis append_eq_conv_conj)
    with True Cons.prems(1) have "splitOn sep (c # cs) = [] # splitOn sep x" by simp
    with Cons.prems(2) have "p = []" "splitOn sep x = q # rest" by simp_all
    with x have "c # cs = p @ sep @ x \<and> splitOn sep x = q # rest" by simp
    then show ?thesis by blast
  next
    case False
    obtain p' ps' where sp: "splitOn sep cs = p' # ps'"
      using splitOn_not_Nil [of sep cs] by (cases "splitOn sep cs") auto
    with False Cons.prems have p: "p = c # p'" and ps: "ps' = q # rest" by simp_all
    from Cons.IH [OF Cons.prems(1) sp [unfolded ps]] obtain x where
      "cs = p' @ sep @ x" "splitOn sep x = q # rest" by blast
    then show ?thesis unfolding p by simp
  qed
qed

lemma prefix_append_long: "prefix xs (u @ t) \<Longrightarrow> length xs \<le> length u \<Longrightarrow> prefix xs u"
  by (auto simp: prefix_append)

lemma splitOn_rebuild:
  "sep \<noteq> [] \<Longrightarrow> splitOn sep s = p # q # rest \<Longrightarrow> splitOn sep (p @ sep @ t) = p # splitOn sep t"
proof (induction s arbitrary: p)
  case Nil
  then show ?case by simp
next
  case (Cons c cs)
  show ?case
  proof (cases "prefix sep (c # cs)")
    case True
    with Cons.prems have "p = []" by simp
    then show ?thesis using Cons.prems(1) by (simp add: splitOn_sep_append)
  next
    case False
    obtain p' ps' where sp: "splitOn sep cs = p' # ps'"
      using splitOn_not_Nil [of sep cs] by (cases "splitOn sep cs") auto
    with False Cons.prems have p: "p = c # p'" and ps: "ps' = q # rest" by simp_all
    from splitOn_second_piece [OF Cons.prems(1) sp [unfolded ps]] obtain x where
      cs: "cs = p' @ sep @ x" by blast
    have ih: "splitOn sep (p' @ sep @ t) = p' # splitOn sep t"
      using Cons.IH [OF Cons.prems(1) sp [unfolded ps]] .
    have np: "\<not> prefix sep (c # p' @ sep @ t)"
    proof
      assume "prefix sep (c # p' @ sep @ t)"
      then have "prefix sep ((c # p' @ sep) @ t)" by simp
      then have "prefix sep (c # p' @ sep)" by (rule prefix_append_long) simp
      then have "prefix sep ((c # p' @ sep) @ x)" by (rule prefix_prefix)
      with False cs show False by simp
    qed
    show ?thesis unfolding p using np ih by simp
  qed
qed

lemma splitOn_sep_free: "sep \<noteq> [] \<Longrightarrow> \<not> sublist sep s \<Longrightarrow> splitOn sep s = [s]"
proof (induction s)
  case Nil
  then show ?case by simp
next
  case (Cons c cs)
  then have "\<not> prefix sep (c # cs)" and "\<not> sublist sep cs"
    by (simp_all add: sublist_Cons_right)
  with Cons show ?case by simp
qed

lemma joinWith_splitOn: "sep \<noteq> [] \<Longrightarrow> joinWith sep (splitOn sep s) = s"
proof (induction sep s rule: splitOn.induct)
  case (1 sep)
  then show ?case by simp
next
  case (2 sep c cs)
  show ?case
  proof (cases "prefix sep (c # cs)")
    case True
    then obtain x where x: "c # cs = sep @ x" by (auto simp: prefix_def)
    then have d: "drop (length sep) (c # cs) = x" by (metis append_eq_conv_conj)
    obtain q qs where sp: "splitOn sep x = q # qs"
      using splitOn_not_Nil [of sep x] by (cases "splitOn sep x") auto
    from 2(1) True 2(3) have j: "joinWith sep (splitOn sep x) = x" unfolding d by simp
    from True 2(3) d have "splitOn sep (c # cs) = [] # splitOn sep x" by simp
    then have "joinWith sep (splitOn sep (c # cs)) = sep @ joinWith sep (splitOn sep x)"
      unfolding sp by simp
    then show ?thesis using j x by simp
  next
    case False
    obtain p' ps' where sp: "splitOn sep cs = p' # ps'"
      using splitOn_not_Nil [of sep cs] by (cases "splitOn sep cs") auto
    from 2(2) False 2(3) have "joinWith sep (splitOn sep cs) = cs" by simp
    then show ?thesis using False sp by (cases ps') simp_all
  qed
qed

lemma joinWith_drop_suffix: "suffix (joinWith sep (drop k ps)) (joinWith sep ps)"
proof (induction k arbitrary: ps)
  case 0
  then show ?case by simp
next
  case (Suc k)
  show ?case
  proof (cases ps)
    case Nil
    then show ?thesis by simp
  next
    case (Cons p qs)
    have "suffix (joinWith sep (drop k qs)) (joinWith sep qs)" by (rule Suc.IH)
    moreover have "suffix (joinWith sep qs) (joinWith sep (p # qs))"
      by (cases qs) (simp_all add: suffix_def)
    ultimately show ?thesis unfolding Cons by (simp add: suffix_order.trans)
  qed
qed

lemma sublist_chain: "sublist a b \<Longrightarrow> sublist b c \<Longrightarrow> sublist a c"
proof -
  assume "sublist a b" "sublist b c"
  then obtain p1 s1 p2 s2 where "b = p1 @ a @ s1" "c = p2 @ b @ s2"
    by (auto simp: sublist_def)
  then have "c = (p2 @ p1) @ a @ (s1 @ s2)" by simp
  then show ?thesis unfolding sublist_def by blast
qed

lemma notin_not_sublist: "d \<notin> set p \<Longrightarrow> \<not> sublist [d] p"
  by (auto dest: set_mono_sublist)

lemma splitOn_char_free: "d \<notin> set p \<Longrightarrow> splitOn [d] p = [p]"
  by (rule splitOn_sep_free) (simp_all add: notin_not_sublist)

lemma splitOn_char_append: "d \<notin> set p \<Longrightarrow> splitOn [d] (p @ d # t) = p # splitOn [d] t"
  by (induction p) auto

lemma splitOn_char_pieces: "\<forall>p\<in>set (splitOn [d] s). d \<notin> set p"
proof (induction s)
  case Nil
  then show ?case by simp
next
  case (Cons c cs)
  obtain p' ps' where sp: "splitOn [d] cs = p' # ps'"
    using splitOn_not_Nil [of "[d]" cs] by (cases "splitOn [d] cs") auto
  with Cons show ?case by (cases "c = d") auto
qed

lemma splitOn_joinWith_char:
  "\<forall>p\<in>set (q # ps). d \<notin> set p \<Longrightarrow> splitOn [d] (joinWith [d] (q # ps)) = q # ps"
proof (induction ps arbitrary: q)
  case Nil
  then show ?case by (simp add: splitOn_char_free)
next
  case (Cons r rs)
  then have q: "d \<notin> set q" and ih: "splitOn [d] (joinWith [d] (r # rs)) = r # rs" by simp_all
  have "joinWith [d] (q # r # rs) = q @ d # joinWith [d] (r # rs)" by simp
  then show ?case using splitOn_char_append [OF q] ih by simp
qed

lemma lastN_subset: "set (lastN n xs) \<subseteq> set xs"
  unfolding lastN_def by (rule set_drop_subset)

lemma lastN_not_Nil: "xs \<noteq> [] \<Longrightarrow> 0 < n \<Longrightarrow> lastN n xs \<noteq> []"
  unfolding lastN_def by (cases xs) auto

lemma lastN_lastN: "lastN n (lastN n xs) = lastN n xs"
  unfolding lastN_def by simp

lemma splitOn_scheme:
  "(of_char (CHR '':'')) \<notin> set p \<Longrightarrow> splitOn (js ''://'') (p @ js ''://'' @ t) = p # splitOn (js ''://'') t"
  by (induction p) auto

lemma hostnameWithoutSHA1_https:
  "prefix (js ''https://'') m \<Longrightarrow> \<exists>u. hostnameWithoutSHA1 m = Inr u"
proof -
  assume "prefix (js ''https://'') m"
  then obtain r where "m = js ''https://'' @ r" by (auto simp: prefix_def)
  then have m: "m = js ''https'' @ js ''://'' @ r" by simp
  have "splitOn (js ''://'') m = js ''https'' # splitOn (js ''://'') r"
    unfolding m by (rule splitOn_scheme) simp
  moreover obtain q qs where "splitOn (js ''://'') r = q # qs"
    using splitOn_not_Nil [of "js ''://''" r] by (cases "splitOn (js ''://'') r") auto
  ultimately show ?thesis by (simp add: hostnameWithoutSHA1_def)
qed

lemma hostnameWithoutSHA1_fixed:
  assumes "hostnameWithoutSHA1 u = Inr r"
  shows "hostnameWithoutSHA1 r = Inr r"
proof -
  from assms obtain proto hostname rest where
    sp: "splitOn (js ''://'') u = proto # hostname # rest"
    and r: "r = proto @ js ''://'' @ joinWith (js ''.'') (lastN 3 (splitOn (js ''.'') hostname))"
    by (auto simp: hostnameWithoutSHA1_def split: list.splits)
  let ?ps = "lastN 3 (splitOn (js ''.'') hostname)"
  let ?h = "joinWith (js ''.'') ?ps"
  have ne: "(js ''://'' :: jsstring) \<noteq> []" by simp
  from splitOn_second_piece [OF ne sp] obtain x where
    "u = proto @ js ''://'' @ x" and x: "splitOn (js ''://'') x = hostname # rest" by blast
  from splitOn_first_piece [OF ne x] have hf: "\<not> sublist (js ''://'') hostname" by simp
  have "suffix ?h (joinWith (js ''.'') (splitOn (js ''.'') hostname))"
    unfolding lastN_def by (rule joinWith_drop_suffix)
  then have "suffix ?h hostname" by (simp add: joinWith_splitOn)
  then have "sublist ?h hostname" by (rule suffix_imp_sublist)
  with hf have "\<not> sublist (js ''://'') ?h" using sublist_chain by blast
  then have "splitOn (js ''://'') ?h = [?h]" by (intro splitOn_sep_free) simp
  moreover have "splitOn (js ''://'') r = proto # splitOn (js ''://'') ?h"
    unfolding r by (rule splitOn_rebuild [OF ne sp])
  ultimately have sr: "splitOn (js ''://'') r = [proto, ?h]" by simp
  have pne: "?ps \<noteq> []" by (rule lastN_not_Nil) (simp_all add: splitOn_not_Nil)
  then obtain q qs where ps: "?ps = q # qs" by (cases ?ps) auto
  have "\<forall>p\<in>set ?ps. of_char (CHR ''.'') \<notin> set p"
  proof
    fix p assume "p \<in> set ?ps"
    then have "p \<in> set (splitOn (js ''.'') hostname)" using lastN_subset by fast
    then show "of_char (CHR ''.'') \<notin> set p"
      using splitOn_char_pieces [of "of_char (CHR ''.'')" hostname] by simp
  qed
  then have "splitOn (js ''.'') (joinWith (js ''.'') (q # qs)) = q # qs"
    unfolding ps using splitOn_joinWith_char [of q qs "of_char (CHR ''.'')"] by simp
  then have "splitOn (js ''.'') ?h = ?ps" unfolding ps .
  then have "joinWith (js ''.'') (lastN 3 (splitOn (js ''.'') ?h)) = ?h" by (simp add: lastN_lastN)
  then show ?thesis using sr r by (simp add: hostnameWithoutSHA1_def)
qed

lemma normalizeUrl_idempotent: "normalizeUrl u = Inr r \<Longrightarrow> normalizeUrl r = Inr r"
  by (auto simp: normalizeUrl_def hostnameWithoutSHA1_fixed split: if_splits)

lemma normalizeUrl_host:
  assumes "(of_char (CHR '':'')) \<notin> set proto" "\<not> sublist (js ''://'') host" "suffix (js ''.pages.dev'') host"
  shows "normalizeUrl (proto @ js ''://'' @ host)
         = Inr (proto @ js ''://'' @ joinWith (js ''.'') (lastN 3 (splitOn (js ''.'') host)))"
proof -
  have "splitOn (js ''://'') (proto @ js ''://'' @ host) = proto # splitOn (js ''://'') host"
    using assms(1) by (rule splitOn_scheme)
  moreover have "splitOn (js ''://'') host = [host]" using assms(2) by (intro splitOn_sep_free) simp
  ultimately have sp: "splitOn (js ''://'') (proto @ js ''://'' @ host) = [proto, host]" by (simp only:)
  have sf: "suffix (js ''.pages.dev'') (proto @ js ''://'' @ host)"
    using assms(3) by (intro suffix_appendI)
  show ?thesis
    unfolding normalizeUrl_def hostnameWithoutSHA1_def sp
    by (simp only: sf if_True list.case)
qed

lemma normalizeUrl_collapse:
  assumes "(of_char (CHR ''.'')) \<notin> set hash" "(of_char (CHR ''.'')) \<notin> set project"
    and "(of_char (CHR ''/'')) \<notin> set hash" "(of_char (CHR ''/'')) \<notin> set project"
  shows "normalizeUrl (js ''https://'' @ hash @ js ''.'' @ project @ js ''.pages.dev'')
         = Inr (js ''https://'' @ project @ js ''.pages.dev'')"
proof -
  let ?host = "hash @ js ''.'' @ project @ js ''.pages.dev''"
  have "(of_char (CHR ''/'')) \<notin> set ?host" using assms(3,4) by simp
  then have nf: "\<not> sublist (js ''://'') ?host" by (auto dest: set_mono_sublist)
  have sf: "suffix (js ''.pages.dev'') ?host" by (simp add: suffix_def)
  have "splitOn (js ''.'') ?host = hash # splitOn (js ''.'') (project @ js ''.pages.dev'')"
    using splitOn_char_append [OF assms(1)] by simp
  also have "splitOn (js ''.'') (project @ js ''.pages.dev'') = project # splitOn (js ''.'') (js ''pages.dev'')"
    using splitOn_char_append [OF assms(2)] by simp
  also have "splitOn (js ''.'') (js ''pages.dev'') = [js ''pages'', js ''dev'']" by simp
  finally have "lastN 3 (splitOn (js ''.'') ?host) = [project, js ''pages'', js ''dev'']"
    by (simp add: lastN_def)
  then have "joinWith (js ''.'') (lastN 3 (splitOn (js ''.'') ?host)) = project @ js ''.pages.dev''" by simp
  moreover have "normalizeUrl (js ''https'' @ js ''://'' @ ?host)
         = Inr (js ''https'' @ js ''://'' @ joinWith (js ''.'') (lastN 3 (splitOn (js ''.'') ?host)))"
    using nf sf by (intro normalizeUrl_host) simp_all
  ultimately show ?thesis by simp
qed

lemma splitOn_hostname:
  "\<not> sublist (js ''://'') h \<Longrightarrow>
     splitOn (js ''://'') (h @ js ''://'' @ t) = h # splitOn (js ''://'') t"
proof (induction h)
  case Nil
  then show ?case using splitOn_sep_append [of "js ''://''" t] by simp
next
  case (Cons c cs)
  have ns: "\<not> sublist (js ''://'') cs"
    using Cons.prems by (auto simp: sublist_Cons_right)
  have np: "\<not> prefix (js ''://'') (c # cs)"
    using Cons.prems by (auto simp: sublist_Cons_right)
  have np': "\<not> prefix (js ''://'') (c # cs @ js ''://'' @ t)"
  proof (cases cs)
    case Nil
    then show ?thesis by simp
  next
    case (Cons d ds)
    note cs = this
    show ?thesis
    proof (cases ds)
      case Nil
      with cs show ?thesis by simp
    next
      case (Cons e es)
      with cs np show ?thesis by simp
    qed
  qed
  from np' Cons.IH [OF ns] show ?case by simp
qed

lemma normalizeUrl_text:
  assumes "url = js ''https://'' @ hostname @ tail" "\<not> sublist (js ''://'') hostname"
    and "tail = [] \<or> prefix (js ''://'') tail" "suffix (js ''.pages.dev'') url"
  shows "normalizeUrl url
         = Inr (js ''https://'' @ joinWith (js ''.'') (lastN 3 (splitOn (js ''.'') hostname)))"
proof -
  have u: "url = js ''https'' @ js ''://'' @ hostname @ tail" using assms(1) by simp
  have s1: "splitOn (js ''://'') url = js ''https'' # splitOn (js ''://'') (hostname @ tail)"
    unfolding u by (rule splitOn_scheme) simp
  have "\<exists>rest. splitOn (js ''://'') (hostname @ tail) = hostname # rest"
  proof (cases "tail = []")
    case True
    then show ?thesis using splitOn_sep_free [of "js ''://''" hostname] assms(2) by simp
  next
    case False
    with assms(3) obtain t where "tail = js ''://'' @ t" by (auto simp: prefix_def)
    then show ?thesis using splitOn_hostname [OF assms(2), of t] by simp
  qed
  then obtain rest where "splitOn (js ''://'') (hostname @ tail) = hostname # rest" by blast
  with s1 have sp: "splitOn (js ''://'') url = js ''https'' # hostname # rest" by (simp only:)
  have "hostnameWithoutSHA1 url
        = Inr (js ''https'' @ js ''://'' @ joinWith (js ''.'') (lastN 3 (splitOn (js ''.'') hostname)))"
    unfolding hostnameWithoutSHA1_def sp by (simp only: list.case)
  then show ?thesis using assms(4) by (simp add: normalizeUrl_def)
qed

lemma urlHost_no_scheme_sep: "\<not> sublist (js ''://'') (urlHost url)"
proof -
  have "of_char (CHR ''/'') \<notin> set (urlHost url)"
    unfolding urlHost_def by (auto split: list.splits dest: set_takeWhileD)
  then show ?thesis by (auto dest: set_mono_sublist)
qed

lemma normalizeUrl_total: "prefix (js ''https://'') url \<Longrightarrow> \<exists>u. normalizeUrl url = Inr u"
  using hostnameWithoutSHA1_https [of url] by (auto simp: normalizeUrl_def)

section \<open>Verification: the deploy runner\<close>

lemma extractStep_entries:
  "parseEntries JSON_parse (outputLines contents) = Inr entries \<Longrightarrow>
     extractStep JSON_parse (Inr contents) ctx =
       (case entriesUrl entries of
          Inl e \<Rightarrow> (Some failedToFind, ctx)
        | Inr m \<Rightarrow> (None, assignUrl m ctx))"
  by (simp add: extractStep_def readDeploymentUrl_def)

lemma outputLines_x: "outputLines (js ''x'') = [js ''x'']"
  by (simp add: outputLines_def)

lemma matchOfValue_Some:
  "(matchOfValue x = Some m) = (\<exists>v. x = Some (JStr v) \<and> patternMatch v m)"
proof (cases x)
  case None
  then show ?thesis by (simp add: matchOfValue_def)
next
  case (Some y)
  then show ?thesis
    using deployedUrlMatch_patternMatch by (cases y) (simp_all add: matchOfValue_def)
qed

lemma deployedUrlMatch_None_iff:
  "(deployedUrlMatch v = None) = (\<not> containsText urlShaped v)"
  using deployedUrlMatch_iff [of v] by auto

lemma matchOfValue_None:
  "(matchOfValue x = None) = (\<forall>v. x = Some (JStr v) \<longrightarrow> \<not> containsText urlShaped v)"
proof (cases x)
  case None
  then show ?thesis by (simp add: matchOfValue_def)
next
  case (Some y)
  then show ?thesis
    by (cases y) (simp_all add: matchOfValue_def deployedUrlMatch_None_iff)
qed

lemma findEntry_Inr:
  "findEntry t entries = Inr found \<Longrightarrow>
     found = (case find (hasType t) entries of None \<Rightarrow> JUndefined | Some e \<Rightarrow> e)"
proof (induction entries)
  case Nil
  then show ?case by simp
next
  case (Cons e es)
  from Cons.prems obtain ty where ty: "getField e (js ''type'') = Inr ty"
    by (cases "getField e (js ''type'')") simp_all
  show ?case
  proof (cases "ty = JStr t")
    case True
    with ty have "hasType t e" by (simp add: hasType_def)
    then show ?thesis using Cons.prems ty True by simp
  next
    case False
    with ty have "\<not> hasType t e" by (simp add: hasType_def)
    then show ?thesis using Cons ty False by simp
  qed
qed

lemma deployTarget_rule:
  assumes "deployTarget entries = Inr v"
  shows "present v = Option.bind (find (hasType (js ''deploy'')) entries) firstTarget"
proof -
  from assms obtain found where f: "findEntry (js ''deploy'') entries = Inr found"
    by (cases "findEntry (js ''deploy'') entries") (simp_all add: deployTarget_def)
  note fi = findEntry_Inr [OF f]
  show ?thesis
  proof (cases "find (hasType (js ''deploy'')) entries")
    case None
    with fi have "found = JUndefined" by simp
    with assms f None show ?thesis by (simp add: deployTarget_def isNullish_def present_def)
  next
    case (Some e)
    with fi have fe: "found = e" by simp
    from Some have "hasType (js ''deploy'') e" using find_Some_set by fastforce
    then have nn: "\<not> isNullish e" by (auto simp: hasType_def getField_def isNullish_def)
    from assms f fe nn obtain ts where ts: "getField e (js ''targets'') = Inr ts"
      by (cases "getField e (js ''targets'')") (simp_all add: deployTarget_def)
    show ?thesis
    proof (cases "isNullish ts")
      case True
      then show ?thesis using assms f fe nn ts Some
        by (simp add: deployTarget_def firstTarget_def present_def isNullish_def)
    next
      case False
      then show ?thesis using assms f fe nn ts Some
        by (auto simp: deployTarget_def firstTarget_def present_def)
    qed
  qed
qed

lemma pagesDeployUrl_rule:
  assumes "pagesDeployUrl entries = Inr v"
  shows "present v = Option.bind (find (hasType (js ''pages-deploy'')) entries) urlField"
proof -
  from assms obtain found where f: "findEntry (js ''pages-deploy'') entries = Inr found"
    by (cases "findEntry (js ''pages-deploy'') entries") (simp_all add: pagesDeployUrl_def)
  note fi = findEntry_Inr [OF f]
  show ?thesis
  proof (cases "find (hasType (js ''pages-deploy'')) entries")
    case None
    with fi have "found = JUndefined" by simp
    with assms f None show ?thesis by (simp add: pagesDeployUrl_def isNullish_def present_def)
  next
    case (Some e)
    with fi have fe: "found = e" by simp
    from Some have "hasType (js ''pages-deploy'') e" using find_Some_set by fastforce
    then have nn: "\<not> isNullish e" by (auto simp: hasType_def getField_def isNullish_def)
    then show ?thesis using assms f fe Some
      by (simp add: pagesDeployUrl_def urlField_def)
  qed
qed

lemma extractedValue_rule:
  assumes "extractedValue entries = Inr v"
  shows "present v = prioritisedValue entries"
proof -
  from assms obtain v0 where d: "deployTarget entries = Inr v0"
    by (cases "deployTarget entries") (simp_all add: extractedValue_def)
  note dr = deployTarget_rule [OF d]
  show ?thesis
  proof (cases "isNullish v0")
    case True
    with assms d have "pagesDeployUrl entries = Inr v" by (simp add: extractedValue_def)
    from pagesDeployUrl_rule [OF this] True dr show ?thesis
      by (simp add: prioritisedValue_def present_def)
  next
    case False
    with assms d have "v = v0" by (simp add: extractedValue_def)
    moreover from False dr
    have "Option.bind (find (hasType (js ''deploy'')) entries) firstTarget = Some v0"
      by (simp add: present_def)
    ultimately show ?thesis using False by (simp add: prioritisedValue_def present_def)
  qed
qed

lemma entriesUrl_rule:
  assumes "entriesUrl entries = Inr m"
  shows "\<exists>v. prioritisedValue entries = Some (JStr v) \<and> patternMatch v m"
proof -
  from assms obtain s where ev: "extractedValue entries = Inr (JStr s)"
    and ms: "deployedUrlMatch s = Some m"
    by (auto simp: entriesUrl_def matchedUrl_def split: sum.splits if_splits jsval.splits option.splits)
  from extractedValue_rule [OF ev] have "prioritisedValue entries = Some (JStr s)"
    by (simp add: present_def isNullish_def)
  moreover from ms have "patternMatch s m" by (simp add: deployedUrlMatch_patternMatch)
  ultimately show ?thesis by blast
qed

lemma extractStep_cases:
  "parseEntries JSON_parse (outputLines contents) = Inr entries \<Longrightarrow>
     (extractStep JSON_parse (Inr contents) ctx = (None, assignUrl m ctx)) = (entriesUrl entries = Inr m)
     \<and> (extractStep JSON_parse (Inr contents) ctx = (Some failedToFind, ctx)) = isl (entriesUrl entries)"
proof -
  assume p: "parseEntries JSON_parse (outputLines contents) = Inr entries"
  have inj: "\<And>a b. (assignUrl a ctx = assignUrl b ctx) = (a = b)"
  proof
    fix a b assume "assignUrl a ctx = assignUrl b ctx"
    then have "deployment_url (assignUrl a ctx) = deployment_url (assignUrl b ctx)" by simp
    then show "a = b" by (simp add: assignUrl_def)
  qed simp
  show ?thesis unfolding extractStep_entries [OF p]
    by (cases "entriesUrl entries") (simp_all add: inj)
qed

lemma entriesUrl_matchOfValue:
  assumes "\<forall>e\<in>set entries. \<not> isNullish e"
  shows "(entriesUrl entries = Inr m) = (matchOfValue (prioritisedValue entries) = Some m)"
    and "isl (entriesUrl entries) = (matchOfValue (prioritisedValue entries) = None)"
proof -
  have sp: "matchOfValue (prioritisedValue entries)
            = (case entriesUrl entries of Inl e \<Rightarrow> None | Inr m \<Rightarrow> Some m)"
    using entriesUrl_spec [OF assms] by simp
  show "(entriesUrl entries = Inr m) = (matchOfValue (prioritisedValue entries) = Some m)"
    unfolding sp by (cases "entriesUrl entries") simp_all
  show "isl (entriesUrl entries) = (matchOfValue (prioritisedValue entries) = None)"
    unfolding sp by (cases "entriesUrl entries") simp_all
qed

lemma outputLines_two: "outputLines (js ''a'' @ [0x0A] @ js ''b'') = [js ''a'', js ''b'']"
  by (simp add: outputLines_def)

lemma foo_workers_match:
  "patternMatch (js ''https://foo.workers.dev'') (js ''https://foo.workers.dev'')"
proof -
  have "deployedUrlMatch (js ''https://foo.workers.dev'') = Some (js ''https://foo.workers.dev'')"
    by (simp add: regexAt_def regexDomain_def lineTerminator_def)
  then show ?thesis
    using deployedUrlMatch_patternMatch [of "js ''https://foo.workers.dev''" "js ''https://foo.workers.dev''"]
    by blast
qed

lemma nowhere_no_match: "\<not> containsText urlShaped (js ''nowhere'')"
proof -
  have "deployedUrlMatch (js ''nowhere'') = None" by (simp add: regexAt_def)
  then show ?thesis using deployedUrlMatch_None_iff [of "js ''nowhere''"] by blast
qed

lemma outputLines_null_x:
  "outputLines (js ''null'' @ [0x0A] @ js ''x'') = [js ''null'', js ''x'']"
  by (simp add: outputLines_def)

text \<open>
  C4, as claimed: for every list of parsed output records the url is taken by the
  priority rule. The output lines \<^verbatim>\<open>null\<close> and
  \<^verbatim>\<open>{"type":"deploy","targets":["https://foo.workers.dev"]}\<close> parse to a list whose first
  record of type \<^verbatim>\<open>deploy\<close> has the matching first target \<^verbatim>\<open>https://foo.workers.dev\<close>, but
  \<^verbatim>\<open>entry.type\<close> on the \<^verbatim>\<open>null\<close> entry throws inside \<^verbatim>\<open>find\<close> and the \<^verbatim>\<open>catch\<close> reports that no
  url was found.
\<close>

theorem extractStep_null_record:
  "prioritisedValue
     [JNull, JObj [(js ''type'', JStr (js ''deploy'')),
                   (js ''targets'', JArr [JStr (js ''https://foo.workers.dev'')])]]
     = Some (JStr (js ''https://foo.workers.dev''))
   \<and> patternMatch (js ''https://foo.workers.dev'') (js ''https://foo.workers.dev'')
   \<and> extractStep
       (\<lambda>l. if l = js ''null'' then Inr JNull
            else Inr (JObj [(js ''type'', JStr (js ''deploy'')),
                            (js ''targets'', JArr [JStr (js ''https://foo.workers.dev'')])]))
       (Inr (js ''null'' @ [0x0A] @ js ''x''))
       \<lparr>platform = js ''workers'', account_id = Some (js ''id''), deployment_url = None,
        args_open = False, url_assignments = 0\<rparr>
     = (Some (Error (js ''Failed to find deployment url.'')),
        \<lparr>platform = js ''workers'', account_id = Some (js ''id''), deployment_url = None,
         args_open = False, url_assignments = 0\<rparr>)"
proof -
  let ?rec = "JObj [(js ''type'', JStr (js ''deploy'')),
                    (js ''targets'', JArr [JStr (js ''https://foo.workers.dev'')])]"
  let ?parse = "\<lambda>l. if l = js ''null'' then Inr JNull else (Inr ?rec :: exn + jsval)"
  let ?ctx = "\<lparr>platform = js ''workers'', account_id = Some (js ''id''), deployment_url = None,
        args_open = False, url_assignments = 0\<rparr>"
  have a: "prioritisedValue [JNull, ?rec] = Some (JStr (js ''https://foo.workers.dev''))"
    by (simp add: prioritisedValue_def hasType_def getField_def firstTarget_def present_def
          getFirst_def isNullish_def)
  have p: "parseEntries ?parse (outputLines (js ''null'' @ [0x0A] @ js ''x'')) = Inr [JNull, ?rec]"
    by (simp add: outputLines_null_x [simplified])
  have "entriesUrl [JNull, ?rec] = Inl TypeError"
    by (simp add: entriesUrl_def extractedValue_def deployTarget_def getField_def)
  then have c: "extractStep ?parse (Inr (js ''null'' @ [0x0A] @ js ''x'')) ?ctx
                = (Some (Error (js ''Failed to find deployment url.'')), ?ctx)"
    unfolding extractStep_entries [OF p] by (simp add: failedToFind_def)
  from a foo_workers_match c show ?thesis by (intro conjI)
qed

text \<open>
  C4, amended. For every list of parsed output records none of which is \<^verbatim>\<open>null\<close>, the
  \<^verbatim>\<open>try\<close> block of \<^verbatim>\<open>runDeploy\<close> takes the first element of the targets of the first record
  of type \<^verbatim>\<open>deploy\<close>, else the url field of the first record of type \<^verbatim>\<open>pages-deploy\<close>;
  it stores a url exactly when the value taken is a string containing a text
  \<^verbatim>\<open>https://<host>.(pages|workers).dev\<close> (host non-empty, without line terminator), and
  the url stored is the leftmost, longest such text; a value without one is treated as no
  value at all: both throw \<^verbatim>\<open>Failed to find deployment url.\<close> and leave the context alone.
  With a \<^verbatim>\<open>null\<close> record in the list the block still stores no other url than the one of
  the rule, and otherwise throws that same error. For the records
  \<^verbatim>\<open>[{"type":"deploy","targets":["https://foo.workers.dev"]}]\<close> the url is
  \<^verbatim>\<open>https://foo.workers.dev\<close>.
\<close>

theorem extractStep_priority:
  "(parseEntries JSON_parse (outputLines contents) = Inr entries
      \<and> (\<forall>e\<in>set entries. \<not> isNullish e) \<longrightarrow>
    (extractStep JSON_parse (Inr contents) ctx = (None, assignUrl m ctx))
       = (\<exists>v. prioritisedValue entries = Some (JStr v) \<and> patternMatch v m)
    \<and> (extractStep JSON_parse (Inr contents) ctx = (Some failedToFind, ctx))
       = (\<forall>v. prioritisedValue entries = Some (JStr v) \<longrightarrow> \<not> containsText urlShaped v))
   \<and> (parseEntries JSON_parse (outputLines contents) = Inr entries
        \<and> extractStep JSON_parse (Inr contents) ctx = (None, assignUrl m ctx) \<longrightarrow>
      (\<exists>v. prioritisedValue entries = Some (JStr v) \<and> patternMatch v m))
   \<and> (parseEntries JSON_parse (outputLines contents) = Inr entries
        \<and> extractStep JSON_parse (Inr contents) ctx \<noteq> (Some failedToFind, ctx) \<longrightarrow>
      (\<exists>u. extractStep JSON_parse (Inr contents) ctx = (None, assignUrl u ctx)))
   \<and> (parseEntries JSON_parse (outputLines contents)
         = Inr [JObj [(js ''type'', JStr (js ''deploy'')),
                      (js ''targets'', JArr [JStr (js ''https://foo.workers.dev'')])]] \<longrightarrow>
      extractStep JSON_parse (Inr contents) ctx
         = (None, assignUrl (js ''https://foo.workers.dev'') ctx))"
proof -
  let ?rec = "JObj [(js ''type'', JStr (js ''deploy'')),
                    (js ''targets'', JArr [JStr (js ''https://foo.workers.dev'')])]"
  have a: "parseEntries JSON_parse (outputLines contents) = Inr entries
      \<and> (\<forall>e\<in>set entries. \<not> isNullish e) \<longrightarrow>
    (extractStep JSON_parse (Inr contents) ctx = (None, assignUrl m ctx))
       = (\<exists>v. prioritisedValue entries = Some (JStr v) \<and> patternMatch v m)
    \<and> (extractStep JSON_parse (Inr contents) ctx = (Some failedToFind, ctx))
       = (\<forall>v. prioritisedValue entries = Some (JStr v) \<longrightarrow> \<not> containsText urlShaped v)"
  proof
    assume h: "parseEntries JSON_parse (outputLines contents) = Inr entries
      \<and> (\<forall>e\<in>set entries. \<not> isNullish e)"
    then have p: "parseEntries JSON_parse (outputLines contents) = Inr entries"
      and n: "\<forall>e\<in>set entries. \<not> isNullish e" by simp_all
    note ec = extractStep_cases [OF p, of ctx m]
    have "(extractStep JSON_parse (Inr contents) ctx = (None, assignUrl m ctx))
       = (\<exists>v. prioritisedValue entries = Some (JStr v) \<and> patternMatch v m)"
      using ec entriesUrl_matchOfValue(1) [OF n, of m] matchOfValue_Some [of "prioritisedValue entries" m]
      by simp
    moreover have "(extractStep JSON_parse (Inr contents) ctx = (Some failedToFind, ctx))
       = (\<forall>v. prioritisedValue entries = Some (JStr v) \<longrightarrow> \<not> containsText urlShaped v)"
      using ec entriesUrl_matchOfValue(2) [OF n] matchOfValue_None [of "prioritisedValue entries"]
      by simp
    ultimately show "(extractStep JSON_parse (Inr contents) ctx = (None, assignUrl m ctx))
       = (\<exists>v. prioritisedValue entries = Some (JStr v) \<and> patternMatch v m)
    \<and> (extractStep JSON_parse (Inr contents) ctx = (Some failedToFind, ctx))
       = (\<forall>v. prioritisedValue entries = Some (JStr v) \<longrightarrow> \<not> containsText urlShaped v)"
      by (rule conjI)
  qed
  have b: "parseEntries JSON_parse (outputLines contents) = Inr entries
        \<and> extractStep JSON_parse (Inr contents) ctx = (None, assignUrl m ctx) \<longrightarrow>
      (\<exists>v. prioritisedValue entries = Some (JStr v) \<and> patternMatch v m)"
  proof
    assume h: "parseEntries JSON_parse (outputLines contents) = Inr entries
        \<and> extractStep JSON_parse (Inr contents) ctx = (None, assignUrl m ctx)"
    then have "entriesUrl entries = Inr m" using extractStep_cases [of JSON_parse contents entries ctx m]
      by simp
    then show "\<exists>v. prioritisedValue entries = Some (JStr v) \<and> patternMatch v m"
      by (rule entriesUrl_rule)
  qed
  have c: "parseEntries JSON_parse (outputLines contents) = Inr entries
        \<and> extractStep JSON_parse (Inr contents) ctx \<noteq> (Some failedToFind, ctx) \<longrightarrow>
      (\<exists>u. extractStep JSON_parse (Inr contents) ctx = (None, assignUrl u ctx))"
  proof
    assume h: "parseEntries JSON_parse (outputLines contents) = Inr entries
        \<and> extractStep JSON_parse (Inr contents) ctx \<noteq> (Some failedToFind, ctx)"
    then have p: "parseEntries JSON_parse (outputLines contents) = Inr entries" by simp
    show "\<exists>u. extractStep JSON_parse (Inr contents) ctx = (None, assignUrl u ctx)"
      using h unfolding extractStep_entries [OF p] by (cases "entriesUrl entries") auto
  qed
  have d: "parseEntries JSON_parse (outputLines contents) = Inr [?rec] \<longrightarrow>
      extractStep JSON_parse (Inr contents) ctx
        = (None, assignUrl (js ''https://foo.workers.dev'') ctx)"
  proof
    assume p: "parseEntries JSON_parse (outputLines contents) = Inr [?rec]"
    have "deployedUrlMatch (js ''https://foo.workers.dev'') = Some (js ''https://foo.workers.dev'')"
      by (simp add: regexAt_def regexDomain_def lineTerminator_def)
    then have "entriesUrl [?rec] = Inr (js ''https://foo.workers.dev'')"
      by (simp add: entriesUrl_def extractedValue_def deployTarget_def getField_def getFirst_def
            isNullish_def matchedUrl_def)
    then show "extractStep JSON_parse (Inr contents) ctx
        = (None, assignUrl (js ''https://foo.workers.dev'') ctx)"
      unfolding extractStep_entries [OF p] by simp
  qed
  from a b c d show ?thesis by (intro conjI)
qed

theorem extractStep_priority_witness:
  "extractStep
     (\<lambda>l. if l = js ''a''
          then Inr (JObj [(js ''type'', JStr (js ''pages-deploy'')),
                          (js ''url'', JStr (js ''https://abcd1234.myproj.pages.dev''))])
          else Inr (JObj [(js ''type'', JStr (js ''deploy'')),
                          (js ''targets'', JArr [JStr (js ''https://foo.workers.dev'')])]))
     (Inr (js ''a'' @ [0x0A] @ js ''b''))
     \<lparr>platform = js ''workers'', account_id = Some (js ''id''), deployment_url = None,
      args_open = False, url_assignments = 0\<rparr>
   = (None, \<lparr>platform = js ''workers'', account_id = Some (js ''id''),
             deployment_url = Some (js ''https://foo.workers.dev''),
             args_open = False, url_assignments = 1\<rparr>)
   \<and> extractStep
     (\<lambda>l. Inr (JObj [(js ''type'', JStr (js ''deploy'')), (js ''targets'', JArr [JStr (js ''nowhere'')])]))
     (Inr (js ''x''))
     \<lparr>platform = js ''workers'', account_id = Some (js ''id''), deployment_url = None,
      args_open = False, url_assignments = 0\<rparr>
   = (Some (Error (js ''Failed to find deployment url.'')),
      \<lparr>platform = js ''workers'', account_id = Some (js ''id''), deployment_url = None,
       args_open = False, url_assignments = 0\<rparr>)
   \<and> extractStep
     (\<lambda>l. Inr (JObj [(js ''type'', JStr (js ''deploy'')),
                      (js ''targets'', JArr [JStr (js ''https://foo.workers.dev'')])]))
     (Inr (js ''x''))
     \<lparr>platform = js ''workers'', account_id = Some (js ''id''), deployment_url = None,
      args_open = False, url_assignments = 0\<rparr>
   = (None, \<lparr>platform = js ''workers'', account_id = Some (js ''id''),
             deployment_url = Some (js ''https://foo.workers.dev''),
             args_open = False, url_assignments = 1\<rparr>)"
proof -
  let ?pages = "JObj [(js ''type'', JStr (js ''pages-deploy'')),
                      (js ''url'', JStr (js ''https://abcd1234.myproj.pages.dev''))]"
  let ?deploy = "JObj [(js ''type'', JStr (js ''deploy'')),
                       (js ''targets'', JArr [JStr (js ''https://foo.workers.dev'')])]"
  let ?none = "JObj [(js ''type'', JStr (js ''deploy'')), (js ''targets'', JArr [JStr (js ''nowhere'')])]"
  let ?parse = "\<lambda>l. if l = js ''a'' then Inr ?pages else (Inr ?deploy :: exn + jsval)"
  let ?ctx = "\<lparr>platform = js ''workers'', account_id = Some (js ''id''), deployment_url = None,
      args_open = False, url_assignments = 0\<rparr>"
  let ?url = "js ''https://foo.workers.dev''"
  have p: "parseEntries ?parse (outputLines (js ''a'' @ [0x0A] @ js ''b'')) = Inr [?pages, ?deploy]"
    by (simp add: outputLines_two [simplified])
  have n: "\<forall>e\<in>set [?pages, ?deploy]. \<not> isNullish e" by (simp add: isNullish_def)
  have pv: "prioritisedValue [?pages, ?deploy] = Some (JStr ?url)"
    by (simp add: prioritisedValue_def hasType_def getField_def firstTarget_def present_def
          getFirst_def isNullish_def)
  from pv foo_workers_match
  have ex: "\<exists>v. prioritisedValue [?pages, ?deploy] = Some (JStr v) \<and> patternMatch v ?url" by blast
  note t1 = extractStep_priority [of ?parse "js ''a'' @ [0x0A] @ js ''b''" "[?pages, ?deploy]" ?ctx ?url,
      THEN conjunct1, rule_format, OF conjI, OF p n, THEN conjunct1]
  from t1 ex have a: "extractStep ?parse (Inr (js ''a'' @ [0x0A] @ js ''b'')) ?ctx
                      = (None, assignUrl ?url ?ctx)" by (rule iffD2)
  have q: "parseEntries (\<lambda>l. Inr ?none) (outputLines (js ''x'')) = Inr [?none]"
    by (simp add: outputLines_x [simplified])
  have nn: "\<forall>e\<in>set [?none]. \<not> isNullish e" by (simp add: isNullish_def)
  have "prioritisedValue [?none] = Some (JStr (js ''nowhere''))"
    by (simp add: prioritisedValue_def hasType_def getField_def firstTarget_def present_def
          getFirst_def isNullish_def)
  with nowhere_no_match
  have all: "\<forall>v. prioritisedValue [?none] = Some (JStr v) \<longrightarrow> \<not> containsText urlShaped v" by simp
  note t2 = extractStep_priority [of "\<lambda>l. Inr ?none" "js ''x''" "[?none]" ?ctx ?url,
      THEN conjunct1, rule_format, OF conjI, OF q nn, THEN conjunct2]
  from t2 all have b: "extractStep (\<lambda>l. Inr ?none) (Inr (js ''x'')) ?ctx = (Some failedToFind, ?ctx)"
    by (rule iffD2)
  have r: "parseEntries (\<lambda>l. Inr ?deploy) (outputLines (js ''x'')) = Inr [?deploy]"
    by (simp add: outputLines_x [simplified])
  note t3 = extractStep_priority [of "\<lambda>l. Inr ?deploy" "js ''x''" "[]" ?ctx ?url,
      THEN conjunct2, THEN conjunct2, THEN conjunct2, rule_format]
  have c: "extractStep (\<lambda>l. Inr ?deploy) (Inr (js ''x'')) ?ctx = (None, assignUrl ?url ?ctx)"
    by (rule t3) (rule r)
  from a b c show ?thesis by (simp add: assignUrl_def failedToFind_def)
qed

text \<open>
  C10, as claimed: extraction succeeds exactly when the value contains a text
  \<^verbatim>\<open>https://<nonempty>.pages.dev\<close> or \<^verbatim>\<open>https://<nonempty>.workers.dev\<close>. The value
  \<^verbatim>\<open>"https://a\nb.pages.dev"\<close> (a line feed between \<^verbatim>\<open>a\<close> and \<^verbatim>\<open>b\<close>) contains such a text with
  the non-empty part \<^verbatim>\<open>a\nb\<close>, and the pattern does not match it: the dot of \<^verbatim>\<open>.+\<close> does not
  match a line terminator.
\<close>

theorem deployedUrlMatch_counterexample:
  "containsText urlShapedLoose (js ''https://a'' @ [0x0A] @ js ''b.pages.dev'')
   \<and> deployedUrlMatch (js ''https://a'' @ [0x0A] @ js ''b.pages.dev'') = None"
proof -
  have "js ''https://a'' @ [0x0A] @ js ''b.pages.dev''
        = js ''https://'' @ (js ''a'' @ [0x0A] @ js ''b'') @ js ''.pages.dev''" by simp
  moreover have "js ''a'' @ [0x0A] @ js ''b'' \<noteq> []" by simp
  ultimately have "urlShapedLoose (js ''https://a'' @ [0x0A] @ js ''b.pages.dev'')"
    unfolding urlShapedLoose_def by blast
  then have "containsText urlShapedLoose ([] @ (js ''https://a'' @ [0x0A] @ js ''b.pages.dev'') @ [])"
    unfolding containsText_def by blast
  moreover have "deployedUrlMatch (js ''https://a'' @ [0x0A] @ js ''b.pages.dev'') = None"
    by (simp add: regexAt_def regexDomain_def lineTerminator_def)
  ultimately show ?thesis by simp
qed

text \<open>
  C10, amended. The pattern check is an unanchored substring match on the code units of
  the value: it succeeds exactly when the value contains a text
  \<^verbatim>\<open>https://<part>.pages.dev\<close> or \<^verbatim>\<open>https://<part>.workers.dev\<close> whose part is non-empty and
  free of the four line terminators (LF, CR, U+2028, U+2029); the match is, among these
  texts, the one that starts leftmost and, of those, the longest; and for a string value
  \<open>v\<close> taken from the records the \<^verbatim>\<open>try\<close> block sets \<^verbatim>\<open>ctx.deployment.url\<close> to the match, not
  to \<open>v\<close>, and fails when there is none.
\<close>

theorem deployedUrlMatch_substring:
  "(deployedUrlMatch v \<noteq> None) = containsText urlShaped v
   \<and> (deployedUrlMatch v = Some m) = patternMatch v m
   \<and> (deployedUrlMatch v = Some m \<longrightarrow> urlShaped m \<and> (\<exists>pre post. v = pre @ m @ post))
   \<and> (parseEntries JSON_parse (outputLines contents) = Inr entries
        \<and> extractedValue entries = Inr (JStr v) \<longrightarrow>
      extractStep JSON_parse (Inr contents) ctx =
        (case deployedUrlMatch v of
           None \<Rightarrow> (Some failedToFind, ctx)
         | Some m \<Rightarrow> (None, assignUrl m ctx)))
   \<and> (parseEntries JSON_parse (outputLines contents) = Inr entries
        \<and> extractedValue entries = Inr (JStr v) \<longrightarrow>
      (extractStep JSON_parse (Inr contents) ctx = (None, assignUrl m ctx)) = patternMatch v m
      \<and> (extractStep JSON_parse (Inr contents) ctx = (Some failedToFind, ctx))
          = (\<not> containsText urlShaped v))
   \<and> deployment_url (assignUrl m ctx) = Some m"
proof -
  have a: "(deployedUrlMatch v \<noteq> None) = containsText urlShaped v"
    by (rule deployedUrlMatch_iff)
  have a': "(deployedUrlMatch v = Some m) = patternMatch v m"
    by (rule deployedUrlMatch_patternMatch)
  have b: "deployedUrlMatch v = Some m \<longrightarrow> urlShaped m \<and> (\<exists>pre post. v = pre @ m @ post)"
    using deployedUrlMatch_sound [of v m] by blast
  have eu: "extractedValue entries = Inr (JStr v) \<Longrightarrow> entriesUrl entries =
        (case deployedUrlMatch v of None \<Rightarrow> Inl failedToFind | Some m \<Rightarrow> Inr m)"
    by (simp add: entriesUrl_def matchedUrl_def isNullish_def)
  have c: "parseEntries JSON_parse (outputLines contents) = Inr entries
        \<and> extractedValue entries = Inr (JStr v) \<longrightarrow>
      extractStep JSON_parse (Inr contents) ctx =
        (case deployedUrlMatch v of
           None \<Rightarrow> (Some failedToFind, ctx)
         | Some m \<Rightarrow> (None, assignUrl m ctx))"
  proof
    assume h: "parseEntries JSON_parse (outputLines contents) = Inr entries
        \<and> extractedValue entries = Inr (JStr v)"
    then show "extractStep JSON_parse (Inr contents) ctx =
        (case deployedUrlMatch v of
           None \<Rightarrow> (Some failedToFind, ctx)
         | Some m \<Rightarrow> (None, assignUrl m ctx))"
      using eu extractStep_entries [of JSON_parse contents entries ctx]
      by (simp split: option.splits)
  qed
  have c': "parseEntries JSON_parse (outputLines contents) = Inr entries
        \<and> extractedValue entries = Inr (JStr v) \<longrightarrow>
      (extractStep JSON_parse (Inr contents) ctx = (None, assignUrl m ctx)) = patternMatch v m
      \<and> (extractStep JSON_parse (Inr contents) ctx = (Some failedToFind, ctx))
          = (\<not> containsText urlShaped v)"
  proof
    assume h: "parseEntries JSON_parse (outputLines contents) = Inr entries
        \<and> extractedValue entries = Inr (JStr v)"
    then have p: "parseEntries JSON_parse (outputLines contents) = Inr entries"
      and e: "extractedValue entries = Inr (JStr v)" by simp_all
    have "(entriesUrl entries = Inr m) = (deployedUrlMatch v = Some m)"
      unfolding eu [OF e] by (cases "deployedUrlMatch v") simp_all
    moreover have "isl (entriesUrl entries) = (deployedUrlMatch v = None)"
      unfolding eu [OF e] by (cases "deployedUrlMatch v") simp_all
    ultimately show
      "(extractStep JSON_parse (Inr contents) ctx = (None, assignUrl m ctx)) = patternMatch v m
       \<and> (extractStep JSON_parse (Inr contents) ctx = (Some failedToFind, ctx))
          = (\<not> containsText urlShaped v)"
      using extractStep_cases [OF p, of ctx m] deployedUrlMatch_patternMatch [of v m]
            deployedUrlMatch_None_iff [of v]
      by simp
  qed
  have d: "deployment_url (assignUrl m ctx) = Some m" by (simp add: assignUrl_def)
  from a a' b c c' d show ?thesis by (intro conjI)
qed

theorem deployedUrlMatch_substring_witness:
  "containsText urlShaped (js ''see https://foo.workers.dev/path'')
   \<and> urlShaped (js ''https://foo.workers.dev'')
   \<and> patternMatch (js ''see https://foo.workers.dev/path'') (js ''https://foo.workers.dev'')
   \<and> \<not> containsText urlShaped (js ''https://a'' @ [0x2028] @ js ''b.pages.dev'')
   \<and> extractStep
        (\<lambda>l. Inr (JObj [(js ''type'', JStr (js ''deploy'')),
                         (js ''targets'', JArr [JStr (js ''see https://foo.workers.dev/path'')])]))
        (Inr (js ''x''))
        \<lparr>platform = js ''workers'', account_id = Some (js ''id''), deployment_url = None,
         args_open = False, url_assignments = 0\<rparr>
      = (None, \<lparr>platform = js ''workers'', account_id = Some (js ''id''),
                deployment_url = Some (js ''https://foo.workers.dev''),
                args_open = False, url_assignments = 1\<rparr>)"
proof -
  let ?v = "js ''see https://foo.workers.dev/path''"
  let ?m = "js ''https://foo.workers.dev''"
  let ?w = "js ''https://a'' @ [0x2028] @ js ''b.pages.dev''"
  let ?rec = "JObj [(js ''type'', JStr (js ''deploy'')), (js ''targets'', JArr [JStr ?v])]"
  let ?ctx = "\<lparr>platform = js ''workers'', account_id = Some (js ''id''), deployment_url = None,
         args_open = False, url_assignments = 0\<rparr>"
  have m: "deployedUrlMatch ?v = Some ?m"
    by (simp add: regexAt_def regexDomain_def lineTerminator_def)
  have n: "deployedUrlMatch ?w = None"
    by (simp add: regexAt_def regexDomain_def lineTerminator_def)
  have p: "parseEntries (\<lambda>l. Inr ?rec) (outputLines (js ''x'')) = Inr [?rec]"
    by (simp add: outputLines_x [simplified])
  have e: "extractedValue [?rec] = Inr (JStr ?v)"
    by (simp add: extractedValue_def deployTarget_def getField_def getFirst_def isNullish_def)
  note t = deployedUrlMatch_substring [of ?v ?m "\<lambda>l. Inr ?rec" "js ''x''" "[?rec]" ?ctx]
  note t' = deployedUrlMatch_substring [of ?w ?m "\<lambda>l. Inr ?rec" "js ''x''" "[?rec]" ?ctx]
  have nn: "deployedUrlMatch ?v \<noteq> None" unfolding m by simp
  have a: "containsText urlShaped ?v"
    by (rule t [THEN conjunct1, THEN iffD1, OF nn])
  have b': "patternMatch ?v ?m"
    by (rule t [THEN conjunct2, THEN conjunct1, THEN iffD1, OF m])
  have b: "urlShaped ?m"
    by (rule t [THEN conjunct2, THEN conjunct2, THEN conjunct1, THEN mp, OF m, THEN conjunct1])
  have b'': "\<not> containsText urlShaped ?w"
  proof
    assume "containsText urlShaped ?w"
    then have "deployedUrlMatch ?w \<noteq> None" by (rule t' [THEN conjunct1, THEN iffD2])
    with n show False by contradiction
  qed
  have "extractStep (\<lambda>l. Inr ?rec) (Inr (js ''x'')) ?ctx
        = (case deployedUrlMatch ?v of
             None \<Rightarrow> (Some failedToFind, ?ctx)
           | Some m \<Rightarrow> (None, assignUrl m ?ctx))"
    by (rule t [THEN conjunct2, THEN conjunct2, THEN conjunct2, THEN conjunct1, THEN mp,
                OF conjI, OF p e])
  then have c: "extractStep (\<lambda>l. Inr ?rec) (Inr (js ''x'')) ?ctx = (None, assignUrl ?m ?ctx)"
    unfolding m by simp
  have c': "extractStep (\<lambda>l. Inr ?rec) (Inr (js ''x'')) ?ctx
            = (None, \<lparr>platform = js ''workers'', account_id = Some (js ''id''),
                deployment_url = Some (js ''https://foo.workers.dev''),
                args_open = False, url_assignments = 1\<rparr>)"
    unfolding c by (simp add: assignUrl_def)
  from a b b' b'' c' show ?thesis by (intro conjI)
qed

lemma runDeploy_reaches_extract:
  "account_id ctx = Some a \<Longrightarrow> a \<noteq> [] \<Longrightarrow> commandFailure run = None \<Longrightarrow>
     runDeploy JSON_parse run ctx =
       (case readDeploymentUrl JSON_parse (outputFile run) of
          Inl e \<Rightarrow> (Some failedToFind, ctx)
        | Inr m \<Rightarrow> normalizeStep (assignUrl m ctx))"
  by (simp add: runDeploy_def extractStep_def split: sum.splits)

lemma readDeploymentUrl_empty: "isl (readDeploymentUrl JSON_parse (Inr []))"
  by (simp add: readDeploymentUrl_def outputLines_def entriesUrl_def extractedValue_def
        deployTarget_def pagesDeployUrl_def matchedUrl_def isNullish_def)

lemma readDeploymentUrl_malformed:
  "\<exists>l\<in>set (outputLines contents). isl (JSON_parse l) \<Longrightarrow>
     isl (readDeploymentUrl JSON_parse (Inr contents))"
proof -
  assume "\<exists>l\<in>set (outputLines contents). isl (JSON_parse l)"
  then have "isl (parseEntries JSON_parse (outputLines contents))" by (rule parseEntries_fails)
  then show ?thesis by (auto simp: readDeploymentUrl_def split: sum.splits)
qed

lemma readDeploymentUrl_no_record:
  assumes "parseEntries JSON_parse (outputLines contents) = Inr entries"
    and "\<forall>e\<in>set entries. \<not> recordYieldsUrl e"
  shows "isl (readDeploymentUrl JSON_parse (Inr contents))"
proof (cases "entriesUrl entries")
  case (Inl e)
  then show ?thesis using assms(1) by (simp add: readDeploymentUrl_def)
next
  case (Inr m)
  then have "\<exists>e\<in>set entries. recordYieldsUrl e" by (rule entriesUrl_yields)
  with assms(2) show ?thesis by blast
qed

lemma readDeploymentUrl_https:
  "readDeploymentUrl JSON_parse file = Inr m \<Longrightarrow> prefix (js ''https://'') m"
proof -
  assume "readDeploymentUrl JSON_parse file = Inr m"
  then obtain entries where "entriesUrl entries = Inr m"
    by (auto simp: readDeploymentUrl_def split: sum.splits)
  then obtain s where "deployedUrlMatch s = Some m"
    by (auto simp: entriesUrl_def matchedUrl_def split: sum.splits if_splits jsval.splits option.splits)
  then have "urlShaped m" using deployedUrlMatch_sound by blast
  then show ?thesis by (auto simp: urlShaped_def)
qed

lemma normalizeStep_assigned:
  assumes "prefix (js ''https://'') m"
  shows "\<exists>u. normalizeUrl m = Inr u
           \<and> normalizeStep (assignUrl m ctx) =
               (None, if suffix (js ''.pages.dev'') m then assignUrl u (assignUrl m ctx)
                      else assignUrl m ctx)"
proof -
  from hostnameWithoutSHA1_https [OF assms] obtain u where u: "hostnameWithoutSHA1 m = Inr u"
    by blast
  have d: "deployment_url (assignUrl m ctx) = Some m" by (simp add: assignUrl_def)
  show ?thesis
  proof (cases "suffix (js ''.pages.dev'') m")
    case True
    then have "normalizeUrl m = Inr u" using u by (simp add: normalizeUrl_def)
    moreover have "normalizeStep (assignUrl m ctx) = (None, assignUrl u (assignUrl m ctx))"
      unfolding normalizeStep_def d using True u by simp
    ultimately show ?thesis using True by simp
  next
    case False
    then have "normalizeUrl m = Inr m" by (simp add: normalizeUrl_def)
    moreover have "normalizeStep (assignUrl m ctx) = (None, assignUrl m ctx)"
      unfolding normalizeStep_def d using False by simp
    ultimately show ?thesis using False by simp
  qed
qed

text \<open>
  C5. Once \<^verbatim>\<open>runDeploy\<close> has an account id and the deploy command has succeeded, an
  output file that is absent, empty, has a line that \<^verbatim>\<open>JSON.parse\<close> rejects, or has no
  record yielding a url that matches the pattern makes it throw an \<^verbatim>\<open>Error\<close> with the exact
  message \<^verbatim>\<open>Failed to find deployment url.\<close> and leaves the context as it was. Whatever the
  output file and the parser are, no other exception (a \<^verbatim>\<open>SyntaxError\<close> of \<^verbatim>\<open>JSON.parse\<close>, a
  \<^verbatim>\<open>TypeError\<close>, a failed read) leaves \<^verbatim>\<open>runDeploy\<close> from there on.
\<close>

theorem runDeploy_failed_to_find:
  assumes "account_id ctx = Some a" and "a \<noteq> []" and "commandFailure run = None"
  shows "((\<exists>e. outputFile run = Inl e)
       \<or> outputFile run = Inr []
       \<or> (\<exists>contents. outputFile run = Inr contents
             \<and> (\<exists>l\<in>set (outputLines contents). isl (JSON_parse l)))
       \<or> (\<exists>contents entries. outputFile run = Inr contents
             \<and> parseEntries JSON_parse (outputLines contents) = Inr entries
             \<and> (\<forall>e\<in>set entries. \<not> recordYieldsUrl e))
       \<longrightarrow> runDeploy JSON_parse run ctx
             = (Some (Error (js ''Failed to find deployment url.'')), ctx))
     \<and> (\<forall>e c. runDeploy JSON_parse run ctx = (Some e, c)
             \<longrightarrow> e = Error (js ''Failed to find deployment url.'') \<and> c = ctx)"
proof -
  note rd = runDeploy_reaches_extract [OF assms, of JSON_parse]
  have first: "(\<exists>e. outputFile run = Inl e)
       \<or> outputFile run = Inr []
       \<or> (\<exists>contents. outputFile run = Inr contents
             \<and> (\<exists>l\<in>set (outputLines contents). isl (JSON_parse l)))
       \<or> (\<exists>contents entries. outputFile run = Inr contents
             \<and> parseEntries JSON_parse (outputLines contents) = Inr entries
             \<and> (\<forall>e\<in>set entries. \<not> recordYieldsUrl e))
       \<longrightarrow> runDeploy JSON_parse run ctx
             = (Some (Error (js ''Failed to find deployment url.'')), ctx)"
  proof
    assume cases: "(\<exists>e. outputFile run = Inl e)
       \<or> outputFile run = Inr []
       \<or> (\<exists>contents. outputFile run = Inr contents
             \<and> (\<exists>l\<in>set (outputLines contents). isl (JSON_parse l)))
       \<or> (\<exists>contents entries. outputFile run = Inr contents
             \<and> parseEntries JSON_parse (outputLines contents) = Inr entries
             \<and> (\<forall>e\<in>set entries. \<not> recordYieldsUrl e))"
    then have "isl (readDeploymentUrl JSON_parse (outputFile run))"
    proof (elim disjE exE conjE)
      fix e assume "outputFile run = Inl e"
      then show ?thesis by (simp add: readDeploymentUrl_def)
    next
      assume "outputFile run = Inr []"
      then show ?thesis by (simp add: readDeploymentUrl_empty)
    next
      fix contents
      assume "outputFile run = Inr contents" "\<exists>l\<in>set (outputLines contents). isl (JSON_parse l)"
      then show ?thesis by (simp add: readDeploymentUrl_malformed)
    next
      fix contents entries
      assume "outputFile run = Inr contents"
        "parseEntries JSON_parse (outputLines contents) = Inr entries"
        "\<forall>e\<in>set entries. \<not> recordYieldsUrl e"
      then show ?thesis using readDeploymentUrl_no_record by simp
    qed
    then obtain e where "readDeploymentUrl JSON_parse (outputFile run) = Inl e"
      by (cases "readDeploymentUrl JSON_parse (outputFile run)") auto
    then show "runDeploy JSON_parse run ctx
             = (Some (Error (js ''Failed to find deployment url.'')), ctx)"
      using rd by (simp add: failedToFind_def)
  qed
  have second: "\<forall>e c. runDeploy JSON_parse run ctx = (Some e, c)
             \<longrightarrow> e = Error (js ''Failed to find deployment url.'') \<and> c = ctx"
  proof (cases "readDeploymentUrl JSON_parse (outputFile run)")
    case (Inl x)
    then show ?thesis using rd by (simp add: failedToFind_def)
  next
    case (Inr m)
    then have "prefix (js ''https://'') m" by (rule readDeploymentUrl_https)
    from normalizeStep_assigned [OF this, of ctx]
    have "fst (normalizeStep (assignUrl m ctx)) = None" by auto
    then show ?thesis using rd Inr by auto
  qed
  from first second show ?thesis by (rule conjI)
qed

theorem runDeploy_failed_to_find_witness:
  "runDeploy (\<lambda>l. Inl SyntaxError) \<lparr>commandFailure = None, outputFile = Inl ReadError\<rparr>
     \<lparr>platform = js ''workers'', account_id = Some (js ''id''), deployment_url = None,
      args_open = False, url_assignments = 0\<rparr>
   = (Some (Error (js ''Failed to find deployment url.'')),
      \<lparr>platform = js ''workers'', account_id = Some (js ''id''), deployment_url = None,
       args_open = False, url_assignments = 0\<rparr>)
   \<and> runDeploy (\<lambda>l. Inl SyntaxError) \<lparr>commandFailure = None, outputFile = Inr []\<rparr>
     \<lparr>platform = js ''workers'', account_id = Some (js ''id''), deployment_url = None,
      args_open = False, url_assignments = 0\<rparr>
   = (Some (Error (js ''Failed to find deployment url.'')),
      \<lparr>platform = js ''workers'', account_id = Some (js ''id''), deployment_url = None,
       args_open = False, url_assignments = 0\<rparr>)
   \<and> runDeploy (\<lambda>l. Inl SyntaxError) \<lparr>commandFailure = None, outputFile = Inr (js ''x'')\<rparr>
     \<lparr>platform = js ''workers'', account_id = Some (js ''id''), deployment_url = None,
      args_open = False, url_assignments = 0\<rparr>
   = (Some (Error (js ''Failed to find deployment url.'')),
      \<lparr>platform = js ''workers'', account_id = Some (js ''id''), deployment_url = None,
       args_open = False, url_assignments = 0\<rparr>)
   \<and> runDeploy (\<lambda>l. Inr (JObj [(js ''type'', JStr (js ''deploy'')), (js ''targets'', JArr [JStr (js ''nowhere'')])]))
       \<lparr>commandFailure = None, outputFile = Inr (js ''x'')\<rparr>
     \<lparr>platform = js ''workers'', account_id = Some (js ''id''), deployment_url = None,
      args_open = False, url_assignments = 0\<rparr>
   = (Some (Error (js ''Failed to find deployment url.'')),
      \<lparr>platform = js ''workers'', account_id = Some (js ''id''), deployment_url = None,
       args_open = False, url_assignments = 0\<rparr>)"
proof -
  let ?ctx = "\<lparr>platform = js ''workers'', account_id = Some (js ''id''), deployment_url = None,
      args_open = False, url_assignments = 0\<rparr>"
  let ?bad = "\<lambda>l::jsstring. (Inl SyntaxError :: exn + jsval)"
  let ?rec = "JObj [(js ''type'', JStr (js ''deploy'')), (js ''targets'', JArr [JStr (js ''nowhere'')])]"
  have id: "account_id ?ctx = Some (js ''id'')" "js ''id'' \<noteq> []" by simp_all
  note fails = runDeploy_failed_to_find [OF id, THEN conjunct1, THEN mp]
  have a: "runDeploy ?bad \<lparr>commandFailure = None, outputFile = Inl ReadError\<rparr> ?ctx
           = (Some (Error (js ''Failed to find deployment url.'')), ?ctx)"
    by (rule fails) simp_all
  have b: "runDeploy ?bad \<lparr>commandFailure = None, outputFile = Inr []\<rparr> ?ctx
           = (Some (Error (js ''Failed to find deployment url.'')), ?ctx)"
    by (rule fails) simp_all
  have c: "runDeploy ?bad \<lparr>commandFailure = None, outputFile = Inr (js ''x'')\<rparr> ?ctx
           = (Some (Error (js ''Failed to find deployment url.'')), ?ctx)"
    by (rule fails) (simp_all add: outputLines_x [simplified])
  have m: "deployedUrlMatch (js ''nowhere'') = None"
    by (simp add: regexAt_def)
  have ny: "\<not> recordYieldsUrl ?rec"
    using m by (simp add: recordYieldsUrl_match matchOfValue_def hasType_def getField_def
          firstTarget_def present_def getFirst_def isNullish_def)
  have d: "runDeploy (\<lambda>l. Inr ?rec) \<lparr>commandFailure = None, outputFile = Inr (js ''x'')\<rparr> ?ctx
           = (Some (Error (js ''Failed to find deployment url.'')), ?ctx)"
  proof (rule fails)
    show "commandFailure \<lparr>commandFailure = None, outputFile = Inr (js ''x'')\<rparr> = None" by simp
    have "outputFile \<lparr>commandFailure = None, outputFile = Inr (js ''x'')\<rparr> = Inr (js ''x'')
        \<and> parseEntries (\<lambda>l. Inr ?rec) (outputLines (js ''x'')) = Inr [?rec]
        \<and> (\<forall>e\<in>set [?rec]. \<not> recordYieldsUrl e)"
      using ny by (simp add: outputLines_x [simplified])
    then show "(\<exists>e. outputFile \<lparr>commandFailure = None, outputFile = Inr (js ''x'')\<rparr> = Inl e)
       \<or> outputFile \<lparr>commandFailure = None, outputFile = Inr (js ''x'')\<rparr> = Inr []
       \<or> (\<exists>contents. outputFile \<lparr>commandFailure = None, outputFile = Inr (js ''x'')\<rparr> = Inr contents
             \<and> (\<exists>l\<in>set (outputLines contents). isl ((\<lambda>l. Inr ?rec) l)))
       \<or> (\<exists>contents entries. outputFile \<lparr>commandFailure = None, outputFile = Inr (js ''x'')\<rparr> = Inr contents
             \<and> parseEntries (\<lambda>l. Inr ?rec) (outputLines contents) = Inr entries
             \<and> (\<forall>e\<in>set entries. \<not> recordYieldsUrl e))"
      by blast
  qed
  from a b c d show ?thesis by (intro conjI)
qed

lemma normalizeStep_normalizeUrl:
  "deployment_url ctx = Some url \<Longrightarrow> normalizeUrl url = Inr u \<Longrightarrow>
     fst (normalizeStep ctx) = None \<and> deployment_url (snd (normalizeStep ctx)) = Some u"
  by (auto simp: normalizeStep_def normalizeUrl_def assignUrl_def split: if_splits)

lemma runDeploy_outcome:
  "(\<exists>e. runDeploy JSON_parse run ctx = (Some e, ctx))
   \<or> (\<exists>m u. readDeploymentUrl JSON_parse (outputFile run) = Inr m \<and> normalizeUrl m = Inr u
        \<and> runDeploy JSON_parse run ctx =
            (None, ctx\<lparr>deployment_url := Some u,
                       url_assignments := url_assignments ctx
                          + (if suffix (js ''.pages.dev'') m then 2 else 1)\<rparr>))"
proof (cases "account_id ctx = None \<or> account_id ctx = Some []")
  case True
  then show ?thesis by (auto simp: runDeploy_def)
next
  case acc: False
  show ?thesis
  proof (cases "commandFailure run")
    case (Some e)
    with acc show ?thesis by (simp add: runDeploy_def)
  next
    case None
    from acc obtain a where a: "account_id ctx = Some a" "a \<noteq> []" by (cases "account_id ctx") auto
    note rd = runDeploy_reaches_extract [OF a None, of JSON_parse]
    show ?thesis
    proof (cases "readDeploymentUrl JSON_parse (outputFile run)")
      case (Inl e)
      with rd show ?thesis by simp
    next
      case (Inr m)
      then have "prefix (js ''https://'') m" by (rule readDeploymentUrl_https)
      from normalizeStep_assigned [OF this, of ctx] obtain u where
        u: "normalizeUrl m = Inr u"
        and ns: "normalizeStep (assignUrl m ctx) =
               (None, if suffix (js ''.pages.dev'') m then assignUrl u (assignUrl m ctx)
                      else assignUrl m ctx)" by blast
      have "\<not> suffix (js ''.pages.dev'') m \<Longrightarrow> u = m" using u by (simp add: normalizeUrl_def)
      then have "runDeploy JSON_parse run ctx =
            (None, ctx\<lparr>deployment_url := Some u,
                       url_assignments := url_assignments ctx
                          + (if suffix (js ''.pages.dev'') m then 2 else 1)\<rparr>)"
        using rd Inr ns by (auto simp: assignUrl_def)
      with Inr u show ?thesis by blast
    qed
  qed
qed

lemma pages_record_url:
  "readDeploymentUrl
     (\<lambda>l. Inr (JObj [(js ''type'', JStr (js ''pages-deploy'')),
                      (js ''url'', JStr (js ''https://abcd1234.myproj.pages.dev''))]))
     (Inr (js ''x''))
   = Inr (js ''https://abcd1234.myproj.pages.dev'')"
proof -
  let ?rec = "JObj [(js ''type'', JStr (js ''pages-deploy'')),
                    (js ''url'', JStr (js ''https://abcd1234.myproj.pages.dev''))]"
  have m: "deployedUrlMatch (js ''https://abcd1234.myproj.pages.dev'')
           = Some (js ''https://abcd1234.myproj.pages.dev'')"
    by (simp add: regexAt_def regexDomain_def lineTerminator_def)
  have "extractedValue [?rec] = Inr (JStr (js ''https://abcd1234.myproj.pages.dev''))"
    by (simp add: extractedValue_def deployTarget_def pagesDeployUrl_def getField_def isNullish_def)
  then have "entriesUrl [?rec] = Inr (js ''https://abcd1234.myproj.pages.dev'')"
    using m by (simp add: entriesUrl_def matchedUrl_def isNullish_def)
  then show ?thesis by (simp add: readDeploymentUrl_def outputLines_x [simplified])
qed

lemma pages_url_normalized:
  "normalizeUrl (js ''https://abcd1234.myproj.pages.dev'') = Inr (js ''https://myproj.pages.dev'')"
  using normalizeUrl_collapse [of "js ''abcd1234''" "js ''myproj''"] by simp

text \<open>
  C9, as claimed: \<^verbatim>\<open>runDeploy\<close> writes \<^verbatim>\<open>ctx.deployment.url\<close> at most once. For the output
  record \<^verbatim>\<open>{"type":"pages-deploy","url":"https://abcd1234.myproj.pages.dev"}\<close> the
  assignment of line 147 stores the match and the assignment of line 160 stores
  \<^verbatim>\<open>https://myproj.pages.dev\<close>: two assignments in one successful call.
\<close>

theorem runDeploy_assigns_twice:
  "runDeploy
     (\<lambda>l. Inr (JObj [(js ''type'', JStr (js ''pages-deploy'')),
                      (js ''url'', JStr (js ''https://abcd1234.myproj.pages.dev''))]))
     \<lparr>commandFailure = None, outputFile = Inr (js ''x'')\<rparr>
     \<lparr>platform = js ''pages'', account_id = Some (js ''id''), deployment_url = None,
      args_open = False, url_assignments = 0\<rparr>
   = (None, \<lparr>platform = js ''pages'', account_id = Some (js ''id''),
             deployment_url = Some (js ''https://myproj.pages.dev''),
             args_open = False, url_assignments = 2\<rparr>)"
proof -
  let ?parse = "\<lambda>l::jsstring. (Inr (JObj [(js ''type'', JStr (js ''pages-deploy'')),
                      (js ''url'', JStr (js ''https://abcd1234.myproj.pages.dev''))]) :: exn + jsval)"
  let ?run = "\<lparr>commandFailure = None, outputFile = Inr (js ''x'')\<rparr>"
  let ?ctx = "\<lparr>platform = js ''pages'', account_id = Some (js ''id''), deployment_url = None,
      args_open = False, url_assignments = 0\<rparr>"
  have r: "readDeploymentUrl ?parse (outputFile ?run) = Inr (js ''https://abcd1234.myproj.pages.dev'')"
    using pages_record_url by simp
  have s: "suffix (js ''.pages.dev'') (js ''https://abcd1234.myproj.pages.dev'')"
    by (simp add: suffix_def)
  have "\<not> (\<exists>e. runDeploy ?parse ?run ?ctx = (Some e, ?ctx))"
    using runDeploy_reaches_extract [of ?ctx "js ''id''" ?run ?parse] r
          normalizeStep_assigned [of "js ''https://abcd1234.myproj.pages.dev''" ?ctx]
    by auto
  with runDeploy_outcome [of ?parse ?run ?ctx] r pages_url_normalized s
  show ?thesis by auto
qed

text \<open>
  C9, amended. \<^verbatim>\<open>runDeploy\<close> writes \<^verbatim>\<open>ctx.deployment.url\<close> only on its success path: when it
  throws (the error \<^verbatim>\<open>Failed to find deployment url.\<close> included) the context is exactly as
  it was before the call; when it returns, the url is defined: it is the normalised
  match, written once, or twice when the match ends in \<^verbatim>\<open>.pages.dev\<close> (the match first,
  then its normalised form), and nothing else of the context has changed.
\<close>

theorem runDeploy_url_writes:
  "runDeploy JSON_parse run ctx = (res, ctx') \<Longrightarrow>
     (res \<noteq> None \<longrightarrow> ctx' = ctx)
     \<and> (res = None \<longrightarrow>
          (\<exists>m u. readDeploymentUrl JSON_parse (outputFile run) = Inr m \<and> normalizeUrl m = Inr u
             \<and> ctx' = ctx\<lparr>deployment_url := Some u,
                           url_assignments := url_assignments ctx
                              + (if suffix (js ''.pages.dev'') m then 2 else 1)\<rparr>))"
  using runDeploy_outcome [of JSON_parse run ctx] by auto

theorem runDeploy_url_writes_witness:
  "runDeploy (\<lambda>l. Inl SyntaxError) \<lparr>commandFailure = None, outputFile = Inr (js ''x'')\<rparr>
     \<lparr>platform = js ''workers'', account_id = Some (js ''id''), deployment_url = None,
      args_open = False, url_assignments = 0\<rparr>
   = (Some (Error (js ''Failed to find deployment url.'')),
      \<lparr>platform = js ''workers'', account_id = Some (js ''id''), deployment_url = None,
       args_open = False, url_assignments = 0\<rparr>)
   \<and> deployment_url (snd (runDeploy
       (\<lambda>l. Inr (JObj [(js ''type'', JStr (js ''pages-deploy'')),
                        (js ''url'', JStr (js ''https://abcd1234.myproj.pages.dev''))]))
       \<lparr>commandFailure = None, outputFile = Inr (js ''x'')\<rparr>
       \<lparr>platform = js ''pages'', account_id = Some (js ''id''), deployment_url = None,
        args_open = False, url_assignments = 0\<rparr>)) = Some (js ''https://myproj.pages.dev'')"
proof -
  let ?bad = "\<lambda>l::jsstring. (Inl SyntaxError :: exn + jsval)"
  let ?parse = "\<lambda>l::jsstring. (Inr (JObj [(js ''type'', JStr (js ''pages-deploy'')),
                      (js ''url'', JStr (js ''https://abcd1234.myproj.pages.dev''))]) :: exn + jsval)"
  let ?run = "\<lparr>commandFailure = None, outputFile = Inr (js ''x'')\<rparr>"
  let ?w = "\<lparr>platform = js ''workers'', account_id = Some (js ''id''), deployment_url = None,
      args_open = False, url_assignments = 0\<rparr>"
  let ?p = "\<lparr>platform = js ''pages'', account_id = Some (js ''id''), deployment_url = None,
      args_open = False, url_assignments = 0\<rparr>"
  obtain res c where rc: "runDeploy ?bad ?run ?w = (res, c)" by (rule prod.exhaust)
  have "fst (runDeploy ?bad ?run ?w) = Some (Error (js ''Failed to find deployment url.''))"
    by (simp add: runDeploy_def extractStep_def readDeploymentUrl_def outputLines_x [simplified]
          failedToFind_def)
  with rc have f: "res = Some (Error (js ''Failed to find deployment url.''))" by simp
  from runDeploy_url_writes [OF rc] f have "c = ?w" by simp
  with rc f have a: "runDeploy ?bad ?run ?w = (Some (Error (js ''Failed to find deployment url.'')), ?w)"
    by simp
  obtain res' c' where rc': "runDeploy ?parse ?run ?p = (res', c')" by (rule prod.exhaust)
  have "fst (runDeploy ?parse ?run ?p) = None"
    using runDeploy_reaches_extract [of ?p "js ''id''" ?run ?parse] pages_record_url
          normalizeStep_assigned [of "js ''https://abcd1234.myproj.pages.dev''" ?p]
    by auto
  with rc' have g: "res' = None" by simp
  from runDeploy_url_writes [OF rc'] g obtain m u where
    "readDeploymentUrl ?parse (outputFile ?run) = Inr m" "normalizeUrl m = Inr u"
    "deployment_url c' = Some u" by auto
  then have "deployment_url c' = Some (js ''https://myproj.pages.dev'')"
    using pages_record_url pages_url_normalized by simp
  with rc' have b: "deployment_url (snd (runDeploy ?parse ?run ?p)) = Some (js ''https://myproj.pages.dev'')"
    by simp
  from a b show ?thesis by (intro conjI)
qed

lemma normalizeUrl_other: "\<not> suffix (js ''.pages.dev'') url \<Longrightarrow> normalizeUrl url = Inr url"
  by (simp add: normalizeUrl_def)

text \<open>
  C6, as claimed: a url whose host ends in \<^verbatim>\<open>.pages.dev\<close> keeps only the last three labels
  of its host, and a url on another domain is left unmodified. The code tests and splits
  the text of the url, not its host. Each of the three urls below is matched in full by
  the pattern of \<^verbatim>\<open>runDeploy\<close>, so it can be the url that lines 156--161 normalise. The
  first two have the host \<^verbatim>\<open>evil.example\<close> and are modified; the third has the host
  \<^verbatim>\<open>h.p.pages.dev\<close> of four labels and keeps all four.
\<close>

theorem normalizeUrl_text_not_host:
  "deployedUrlMatch (js ''https://evil.example/x.pages.dev'')
     = Some (js ''https://evil.example/x.pages.dev'')
   \<and> urlHost (js ''https://evil.example/x.pages.dev'') = js ''evil.example''
   \<and> normalizeUrl (js ''https://evil.example/x.pages.dev'') = Inr (js ''https://example/x.pages.dev'')
   \<and> deployedUrlMatch (js ''https://evil.example/a://b.c.d.pages.dev'')
     = Some (js ''https://evil.example/a://b.c.d.pages.dev'')
   \<and> urlHost (js ''https://evil.example/a://b.c.d.pages.dev'') = js ''evil.example''
   \<and> normalizeUrl (js ''https://evil.example/a://b.c.d.pages.dev'') = Inr (js ''https://evil.example/a'')
   \<and> deployedUrlMatch (js ''https://h.p.pages.dev/x.workers.dev'')
     = Some (js ''https://h.p.pages.dev/x.workers.dev'')
   \<and> urlHost (js ''https://h.p.pages.dev/x.workers.dev'') = js ''h.p.pages.dev''
   \<and> normalizeUrl (js ''https://h.p.pages.dev/x.workers.dev'')
     = Inr (js ''https://h.p.pages.dev/x.workers.dev'')"
proof -
  have a1: "deployedUrlMatch (js ''https://evil.example/x.pages.dev'')
     = Some (js ''https://evil.example/x.pages.dev'')"
    by (simp add: regexAt_def regexDomain_def lineTerminator_def)
  have a2: "urlHost (js ''https://evil.example/x.pages.dev'') = js ''evil.example''"
    by (simp add: urlHost_def)
  have a3: "normalizeUrl (js ''https://evil.example/x.pages.dev'')
     = Inr (js ''https://example/x.pages.dev'')"
    by (simp add: normalizeUrl_def hostnameWithoutSHA1_def suffix_def lastN_def)
  have b1: "deployedUrlMatch (js ''https://evil.example/a://b.c.d.pages.dev'')
     = Some (js ''https://evil.example/a://b.c.d.pages.dev'')"
    by (simp add: regexAt_def regexDomain_def lineTerminator_def)
  have b2: "urlHost (js ''https://evil.example/a://b.c.d.pages.dev'') = js ''evil.example''"
    by (simp add: urlHost_def)
  have b3: "normalizeUrl (js ''https://evil.example/a://b.c.d.pages.dev'')
     = Inr (js ''https://evil.example/a'')"
    by (simp add: normalizeUrl_def hostnameWithoutSHA1_def suffix_def lastN_def)
  have c1: "deployedUrlMatch (js ''https://h.p.pages.dev/x.workers.dev'')
     = Some (js ''https://h.p.pages.dev/x.workers.dev'')"
    by (simp add: regexAt_def regexDomain_def lineTerminator_def)
  have c2: "urlHost (js ''https://h.p.pages.dev/x.workers.dev'') = js ''h.p.pages.dev''"
    by (simp add: urlHost_def)
  have c3: "normalizeUrl (js ''https://h.p.pages.dev/x.workers.dev'')
     = Inr (js ''https://h.p.pages.dev/x.workers.dev'')"
    by (simp add: normalizeUrl_def suffix_def)
  from a1 a2 a3 b1 b2 b3 c1 c2 c3 show ?thesis by (intro conjI)
qed

text \<open>
  C6, amended. The normalisation of lines 156--161 works on the text of the url. A url
  that does not end in \<^verbatim>\<open>.pages.dev\<close> is left as it is. Of a url \<^verbatim>\<open>https://...\<close> that ends in
  \<^verbatim>\<open>.pages.dev\<close>, the text after \<^verbatim>\<open>https://\<close> up to the next \<^verbatim>\<open>://\<close> (or up to the end) is split
  at its dots, and the url becomes \<^verbatim>\<open>https://\<close> followed by the last three pieces; the
  same holds after any scheme without a colon. When the url consists of the scheme and a
  host ending in \<^verbatim>\<open>.pages.dev\<close>, these pieces are the last three labels of the host, so
  \<^verbatim>\<open>https://<hash>.<project>.pages.dev\<close> becomes \<^verbatim>\<open>https://<project>.pages.dev\<close>. Normalising a
  normalised url gives the same url; no url starting with \<^verbatim>\<open>https://\<close> makes the
  normalisation throw; and the last statement of \<^verbatim>\<open>runDeploy\<close> stores the normalised url
  in the context.
\<close>

theorem normalizeUrl_pages_dev:
  "((of_char (CHR '':'')) \<notin> set proto \<and> \<not> sublist (js ''://'') host \<and> suffix (js ''.pages.dev'') host \<longrightarrow>
      normalizeUrl (proto @ js ''://'' @ host)
        = Inr (proto @ js ''://'' @ joinWith (js ''.'') (lastN 3 (splitOn (js ''.'') host))))
   \<and> ((of_char (CHR ''.'')) \<notin> set hash \<and> (of_char (CHR ''.'')) \<notin> set project
        \<and> (of_char (CHR ''/'')) \<notin> set hash \<and> (of_char (CHR ''/'')) \<notin> set project \<longrightarrow>
      normalizeUrl (js ''https://'' @ hash @ js ''.'' @ project @ js ''.pages.dev'')
        = Inr (js ''https://'' @ project @ js ''.pages.dev''))
   \<and> (\<not> suffix (js ''.pages.dev'') url \<longrightarrow> normalizeUrl url = Inr url)
   \<and> (normalizeUrl url = Inr r \<longrightarrow> normalizeUrl r = Inr r)
   \<and> (deployment_url ctx = Some url \<and> normalizeUrl url = Inr r \<longrightarrow>
        fst (normalizeStep ctx) = None \<and> deployment_url (snd (normalizeStep ctx)) = Some r)
   \<and> (url = js ''https://'' @ hostname @ tail \<and> \<not> sublist (js ''://'') hostname
        \<and> (tail = [] \<or> prefix (js ''://'') tail) \<and> suffix (js ''.pages.dev'') url \<longrightarrow>
      normalizeUrl url
        = Inr (js ''https://'' @ joinWith (js ''.'') (lastN 3 (splitOn (js ''.'') hostname))))
   \<and> (url = js ''https://'' @ urlHost url \<and> suffix (js ''.pages.dev'') (urlHost url) \<longrightarrow>
      normalizeUrl url
        = Inr (js ''https://'' @ joinWith (js ''.'') (lastN 3 (splitOn (js ''.'') (urlHost url)))))
   \<and> (prefix (js ''https://'') url \<longrightarrow> (\<exists>u. normalizeUrl url = Inr u))"
proof -
  have a: "(of_char (CHR '':'')) \<notin> set proto \<and> \<not> sublist (js ''://'') host \<and> suffix (js ''.pages.dev'') host \<longrightarrow>
      normalizeUrl (proto @ js ''://'' @ host)
        = Inr (proto @ js ''://'' @ joinWith (js ''.'') (lastN 3 (splitOn (js ''.'') host)))"
    using normalizeUrl_host [of proto host] by blast
  have b: "(of_char (CHR ''.'')) \<notin> set hash \<and> (of_char (CHR ''.'')) \<notin> set project
        \<and> (of_char (CHR ''/'')) \<notin> set hash \<and> (of_char (CHR ''/'')) \<notin> set project \<longrightarrow>
      normalizeUrl (js ''https://'' @ hash @ js ''.'' @ project @ js ''.pages.dev'')
        = Inr (js ''https://'' @ project @ js ''.pages.dev'')"
    using normalizeUrl_collapse [of hash project] by blast
  have c: "\<not> suffix (js ''.pages.dev'') url \<longrightarrow> normalizeUrl url = Inr url"
    using normalizeUrl_other [of url] by blast
  have d: "normalizeUrl url = Inr r \<longrightarrow> normalizeUrl r = Inr r"
    using normalizeUrl_idempotent [of url r] by blast
  have e: "deployment_url ctx = Some url \<and> normalizeUrl url = Inr r \<longrightarrow>
        fst (normalizeStep ctx) = None \<and> deployment_url (snd (normalizeStep ctx)) = Some r"
    using normalizeStep_normalizeUrl [of ctx url r] by blast
  have f: "url = js ''https://'' @ hostname @ tail \<and> \<not> sublist (js ''://'') hostname
        \<and> (tail = [] \<or> prefix (js ''://'') tail) \<and> suffix (js ''.pages.dev'') url \<longrightarrow>
      normalizeUrl url
        = Inr (js ''https://'' @ joinWith (js ''.'') (lastN 3 (splitOn (js ''.'') hostname)))"
    using normalizeUrl_text [of url hostname tail] by blast
  have g: "url = js ''https://'' @ urlHost url \<and> suffix (js ''.pages.dev'') (urlHost url) \<longrightarrow>
      normalizeUrl url
        = Inr (js ''https://'' @ joinWith (js ''.'') (lastN 3 (splitOn (js ''.'') (urlHost url))))"
  proof
    assume h: "url = js ''https://'' @ urlHost url \<and> suffix (js ''.pages.dev'') (urlHost url)"
    then have u: "url = js ''https://'' @ urlHost url @ []" by simp
    from h have "suffix (js ''.pages.dev'') (js ''https://'' @ urlHost url)"
      by (intro suffix_appendI) simp
    with h have sf: "suffix (js ''.pages.dev'') url" by simp
    show "normalizeUrl url
        = Inr (js ''https://'' @ joinWith (js ''.'') (lastN 3 (splitOn (js ''.'') (urlHost url))))"
      by (rule normalizeUrl_text [OF u urlHost_no_scheme_sep _ sf]) simp
  qed
  have i: "prefix (js ''https://'') url \<longrightarrow> (\<exists>u. normalizeUrl url = Inr u)"
    using normalizeUrl_total [of url] by blast
  from a b c d e f g i show ?thesis by (intro conjI)
qed

theorem normalizeUrl_pages_dev_witness:
  "normalizeUrl (js ''https://abcd1234.myproj.pages.dev'') = Inr (js ''https://myproj.pages.dev'')
   \<and> normalizeUrl (js ''https://foo.workers.dev'') = Inr (js ''https://foo.workers.dev'')
   \<and> normalizeUrl (js ''https://myproj.pages.dev'') = Inr (js ''https://myproj.pages.dev'')
   \<and> normalizeUrl (js ''ftp'' @ js ''://'' @ js ''a.b.c.pages.dev'') = Inr (js ''ftp://c.pages.dev'')
   \<and> normalizeStep
        \<lparr>platform = js ''pages'', account_id = Some (js ''id''),
         deployment_url = Some (js ''https://abcd1234.myproj.pages.dev''),
         args_open = False, url_assignments = 1\<rparr>
      = (None, \<lparr>platform = js ''pages'', account_id = Some (js ''id''),
                deployment_url = Some (js ''https://myproj.pages.dev''),
                args_open = False, url_assignments = 2\<rparr>)
   \<and> normalizeUrl (js ''https://evil.example/a://b.c.d.pages.dev'') = Inr (js ''https://evil.example/a'')
   \<and> normalizeUrl (js ''https://a.b.c.d.pages.dev'') = Inr (js ''https://d.pages.dev'')
   \<and> (\<exists>u. normalizeUrl (js ''https://x'') = Inr u)"
proof -
  let ?long = "js ''https://abcd1234.myproj.pages.dev''"
  let ?short = "js ''https://myproj.pages.dev''"
  let ?ctx = "\<lparr>platform = js ''pages'', account_id = Some (js ''id''),
         deployment_url = Some ?long, args_open = False, url_assignments = 1\<rparr>"
  have a: "normalizeUrl ?long = Inr ?short"
    using normalizeUrl_pages_dev [of _ _ "js ''abcd1234''" "js ''myproj''"] by simp
  have b: "normalizeUrl (js ''https://foo.workers.dev'') = Inr (js ''https://foo.workers.dev'')"
    using normalizeUrl_pages_dev [of _ _ _ _ "js ''https://foo.workers.dev''"]
    by (simp add: suffix_def)
  have c: "normalizeUrl ?short = Inr ?short"
    using normalizeUrl_pages_dev [of _ _ _ _ ?long ?short] a by simp
  have "(of_char (CHR ''/'')) \<notin> set (js ''a.b.c.pages.dev'')" by simp
  then have ns: "\<not> sublist (js ''://'') (js ''a.b.c.pages.dev'')" by (auto dest: set_mono_sublist)
  have sf: "suffix (js ''.pages.dev'') (js ''a.b.c.pages.dev'')" by (simp add: suffix_def)
  have sp: "splitOn (js ''.'') (js ''a.b.c.pages.dev'') = [js ''a'', js ''b'', js ''c'', js ''pages'', js ''dev'']" by simp
  have "normalizeUrl (js ''ftp'' @ js ''://'' @ js ''a.b.c.pages.dev'')
        = Inr (js ''ftp'' @ js ''://'' @ joinWith (js ''.'') (lastN 3 (splitOn (js ''.'') (js ''a.b.c.pages.dev''))))"
    using normalizeUrl_pages_dev [of "js ''ftp''" "js ''a.b.c.pages.dev''"] ns sf by simp
  then have d: "normalizeUrl (js ''ftp'' @ js ''://'' @ js ''a.b.c.pages.dev'') = Inr (js ''ftp://c.pages.dev'')"
    unfolding sp by (simp add: lastN_def)
  have "fst (normalizeStep ?ctx) = None \<and> deployment_url (snd (normalizeStep ?ctx)) = Some ?short"
    using normalizeUrl_pages_dev [of _ _ _ _ ?long ?short ?ctx] a by simp
  moreover have "\<exists>u. normalizeStep ?ctx = (None, assignUrl u ?ctx) \<or> normalizeStep ?ctx = (None, ?ctx)"
    using calculation by (auto simp: normalizeStep_def split: if_splits sum.splits)
  ultimately have e: "normalizeStep ?ctx
      = (None, \<lparr>platform = js ''pages'', account_id = Some (js ''id''),
                deployment_url = Some ?short, args_open = False, url_assignments = 2\<rparr>)"
    by (auto simp: assignUrl_def)
  let ?u = "js ''https://evil.example/a://b.c.d.pages.dev''"
  have "(of_char (CHR '':'')) \<notin> set (js ''evil.example/a'')" by simp
  then have nh: "\<not> sublist (js ''://'') (js ''evil.example/a'')" by (auto dest: set_mono_sublist)
  have ud: "?u = js ''https://'' @ js ''evil.example/a'' @ js ''://b.c.d.pages.dev''" by simp
  have ut: "js ''://b.c.d.pages.dev'' = [] \<or> prefix (js ''://'') (js ''://b.c.d.pages.dev'')" by simp
  have us: "suffix (js ''.pages.dev'') ?u" by (simp add: suffix_def)
  have sh: "splitOn (js ''.'') (js ''evil.example/a'') = [js ''evil'', js ''example/a'']" by simp
  have "normalizeUrl ?u
        = Inr (js ''https://'' @ joinWith (js ''.'') (lastN 3 (splitOn (js ''.'') (js ''evil.example/a''))))"
    using normalizeUrl_pages_dev [of _ _ _ _ ?u _ _ "js ''evil.example/a''" "js ''://b.c.d.pages.dev''"]
          ud nh ut us by blast
  then have f: "normalizeUrl ?u = Inr (js ''https://evil.example/a'')"
    unfolding sh by (simp add: lastN_def)
  let ?q = "js ''https://a.b.c.d.pages.dev''"
  have qh: "urlHost ?q = js ''a.b.c.d.pages.dev''" by (simp add: urlHost_def)
  have qd: "?q = js ''https://'' @ urlHost ?q" unfolding qh by simp
  have qs: "suffix (js ''.pages.dev'') (urlHost ?q)" unfolding qh by (simp add: suffix_def)
  have sq: "splitOn (js ''.'') (js ''a.b.c.d.pages.dev'')
            = [js ''a'', js ''b'', js ''c'', js ''d'', js ''pages'', js ''dev'']" by simp
  have "normalizeUrl ?q
        = Inr (js ''https://'' @ joinWith (js ''.'') (lastN 3 (splitOn (js ''.'') (urlHost ?q))))"
    using normalizeUrl_pages_dev [of _ _ _ _ ?q] qd qs by blast
  then have g: "normalizeUrl ?q = Inr (js ''https://d.pages.dev'')"
    unfolding qh sq by (simp add: lastN_def)
  have i: "\<exists>u. normalizeUrl (js ''https://x'') = Inr u"
    using normalizeUrl_pages_dev [of _ _ _ _ "js ''https://x''"] by simp
  from a b c d e f g i show ?thesis by (intro conjI)
qed

end
